theory Spec2Isabelle
  imports Main "HOL-Library.AList"
begin

section \<open>Duplex consensus calling (parse\_ssc.py)\<close>

text \<open>
  A shallow embedding of the \<^verbatim>\<open>ParseSSC\<close> pipeline of \<^verbatim>\<open>bin/parse_ssc.py\<close>.
  Python dictionaries are association lists that are written with \<^const>\<open>AList.update\<close>
  (an existing key is replaced in place, a new key is appended, as a Python \<^verbatim>\<open>dict\<close>
  does) and read with \<^const>\<open>map_of\<close>.  Python \<^verbatim>\<open>int\<close> is \<^typ>\<open>int\<close>.  Strings are
  ASCII (sequence data), a one-character string is a \<^typ>\<open>char\<close>.  Every exception
  that the modelled code can raise is a value of \<open>error\<close>; nothing in the program
  catches exceptions, so the first one ends the run.
\<close>

subsection \<open>Exceptions\<close>

datatype error =
    KeyError_complement char  \<comment> \<open>\<^verbatim>\<open>complement(base)\<close>: base not in the table\<close>
  | KeyError_refseq int       \<comment> \<open>\<^verbatim>\<open>self.refseq[ref_name][refpos]\<close>: position not cached\<close>
  | KeyError_read string      \<comment> \<open>a key of a read dict that is still empty\<close>
  | IndexError                \<comment> \<open>string index out of range\<close>
  | TypeError                 \<comment> \<open>\<^verbatim>\<open>None\<close> compared, sliced or measured\<close>
  | AssertionError

fun fold_err :: "('a \<Rightarrow> 's \<Rightarrow> error + 's) \<Rightarrow> 'a list \<Rightarrow> 's \<Rightarrow> error + 's" where
  "fold_err f [] s = Inr s"
| "fold_err f (x # xs) s = (case f x s of Inl e \<Rightarrow> Inl e | Inr s' \<Rightarrow> fold_err f xs s')"

subsection \<open>Bases\<close>

definition allowed_nucs :: "char set" where
  "allowed_nucs = {CHR ''A'', CHR ''T'', CHR ''C'', CHR ''G''}"

definition complement :: "char \<Rightarrow> error + char" where
  "complement base =
     (case map_of [(CHR ''A'', CHR ''T''), (CHR ''T'', CHR ''A''),
                   (CHR ''C'', CHR ''G''), (CHR ''G'', CHR ''C'')] base of
        None \<Rightarrow> Inl (KeyError_complement base)
      | Some b \<Rightarrow> Inr b)"

definition iupac_table :: "(char \<times> (char \<times> char) list) list" where
  "iupac_table =
     [(CHR ''A'', [(CHR ''A'', CHR ''A''), (CHR ''T'', CHR ''W''), (CHR ''C'', CHR ''M''), (CHR ''G'', CHR ''R'')]),
      (CHR ''T'', [(CHR ''A'', CHR ''W''), (CHR ''T'', CHR ''T''), (CHR ''C'', CHR ''Y''), (CHR ''G'', CHR ''K'')]),
      (CHR ''C'', [(CHR ''A'', CHR ''M''), (CHR ''T'', CHR ''Y''), (CHR ''C'', CHR ''C''), (CHR ''G'', CHR ''S'')]),
      (CHR ''G'', [(CHR ''A'', CHR ''R''), (CHR ''T'', CHR ''K''), (CHR ''C'', CHR ''S''), (CHR ''G'', CHR ''G'')])]"

definition iupac :: "char \<Rightarrow> char \<Rightarrow> char" where
  "iupac base1 base2 =
     (case map_of iupac_table base1 of
        None \<Rightarrow> CHR ''N''
      | Some row \<Rightarrow> (case map_of row base2 of None \<Rightarrow> CHR ''N'' | Some c \<Rightarrow> c))"

text \<open>\<^verbatim>\<open>str.upper()\<close> on ASCII text.\<close>

definition upper :: "char \<Rightarrow> char" where
  "upper c =
     (let n = (of_char c :: nat) in if 97 \<le> n \<and> n \<le> 122 then char_of (n - 32) else c)"

subsection \<open>Python indexing and slicing\<close>

text \<open>
  \<^verbatim>\<open>s[i]\<close> on a string: positions \<open>0\<close> to \<open>len - 1\<close> read from the left, positions
  \<open>-len\<close> to \<open>-1\<close> read from the right, every other position raises.
\<close>

definition py_index :: "'a list \<Rightarrow> int \<Rightarrow> error + 'a" where
  "py_index s i =
     (if 0 \<le> i \<and> i < int (length s) then Inr (s ! nat i)
      else if - int (length s) \<le> i \<and> i < 0 then Inr (s ! nat (int (length s) + i))
      else Inl IndexError)"

text \<open>
  \<^verbatim>\<open>s[a:b]\<close>: a negative bound has the length added, then both bounds are clamped to
  \<open>[0, len]\<close>; the slice is empty when the upper bound is not above the lower one.
\<close>

definition slice_bound :: "nat \<Rightarrow> int \<Rightarrow> nat" where
  "slice_bound n i = (if i < 0 then nat (max (i + int n) 0) else min (nat i) n)"

definition py_slice :: "'a list \<Rightarrow> int \<Rightarrow> int \<Rightarrow> 'a list" where
  "py_slice xs a b =
     (let lo = slice_bound (length xs) a; hi = slice_bound (length xs) b
      in take (hi - lo) (drop lo xs))"

text \<open>\<^verbatim>\<open>max(a, b)\<close> and \<^verbatim>\<open>min(a, b)\<close> on values that may be \<^verbatim>\<open>None\<close>.\<close>

definition py_max :: "int option \<Rightarrow> int option \<Rightarrow> error + int" where
  "py_max a b = (case (a, b) of (Some x, Some y) \<Rightarrow> Inr (max x y) | _ \<Rightarrow> Inl TypeError)"

definition py_min :: "int option \<Rightarrow> int option \<Rightarrow> error + int" where
  "py_min a b = (case (a, b) of (Some x, Some y) \<Rightarrow> Inr (min x y) | _ \<Rightarrow> Inl TypeError)"

subsection \<open>Data model\<close>

datatype strand = Pos | Neg

datatype orientation = Fwd | Rev

text \<open>
  The reference cache \<^verbatim>\<open>self.refseq\<close>, a \<^verbatim>\<open>defaultdict\<close> of dictionaries: reading
  a contig that is not there gives the empty dictionary.
\<close>

type_synonym refseq = "(string \<times> (int \<times> char) list) list"

definition refseq_contig :: "refseq \<Rightarrow> string \<Rightarrow> (int \<times> char) list" where
  "refseq_contig rs contig = (case map_of rs contig of None \<Rightarrow> [] | Some m \<Rightarrow> m)"

text \<open>The dictionary built by \<^verbatim>\<open>parse_read\<close>.\<close>

record read_details =
  rd_ref_name :: string
  rd_start :: int
  rd_end :: int
  rd_variants :: "(int \<times> char) list"

text \<open>
  \<^verbatim>\<open>read_info[family_id][strand]\<close> is a dictionary from orientation to a read dictionary;
  the factory of \<^verbatim>\<open>read_info\<close> puts an empty dictionary (\<open>None\<close> here) under both
  orientations.
\<close>

type_synonym strand_reads = "(orientation \<times> read_details option) list"

type_synonym family_reads = "(strand \<times> strand_reads) list"

type_synonym read_info = "(string \<times> family_reads) list"

record ssc_variant =
  sv_readpos :: int
  sv_var :: char
  sv_ref :: char

text \<open>An entry \<^verbatim>\<open>ssc_info[family_id][strand]\<close>; every field starts as \<^verbatim>\<open>None\<close>.\<close>

record strand_consensus =
  ssc_ref_name :: "string option"
  ssc_start :: "int option"
  ssc_end :: "int option"
  ssc_cons :: "string option"
  ssc_variants :: "(int \<times> ssc_variant) list"

record family_strands =
  fs_pos :: strand_consensus
  fs_neg :: strand_consensus

type_synonym ssc_info = "(string \<times> family_strands) list"

record variant_info =
  v_var :: char
  v_ref :: char

record adduct_info =
  a_strand :: strand
  a_var :: char
  a_ref :: char

text \<open>
  An entry of \<^verbatim>\<open>dsc_info\<close> once \<^verbatim>\<open>merge_strands\<close> has returned: by then the fields
  \<^verbatim>\<open>start\<close>, \<^verbatim>\<open>end\<close> and \<^verbatim>\<open>cons\<close> have been assigned.
\<close>

record duplex_consensus =
  ds_ref_name :: "string option"
  ds_start :: int
  ds_end :: int
  ds_cons :: string
  ds_nbases :: nat
  ds_adducts :: "(int \<times> adduct_info) list"
  ds_variants :: "(int \<times> variant_info) list"
  ds_total_variants_and_adducts :: nat
  ds_total_variants :: nat

type_synonym dsc_info = "(string \<times> duplex_consensus) list"

text \<open>\<^verbatim>\<open>self.base_positions\<close>: three \<^verbatim>\<open>defaultdict(int)\<close> counters keyed by read position.\<close>

record base_positions =
  bp_adducts :: "(int \<times> nat) list"
  bp_variants :: "(int \<times> nat) list"
  bp_nreads :: "(int \<times> nat) list"

definition incr :: "int \<Rightarrow> (int \<times> nat) list \<Rightarrow> (int \<times> nat) list" where
  "incr k d = AList.update k (case map_of d k of None \<Rightarrow> 1 | Some n \<Rightarrow> n + 1) d"

subsection \<open>DuplexMerger: \<^verbatim>\<open>merge_strands\<close>\<close>

text \<open>The part of the state that the loop over the positions changes.\<close>

record merge_state =
  ms_nbases :: nat
  ms_adducts :: "(int \<times> adduct_info) list"
  ms_variants :: "(int \<times> variant_info) list"
  ms_total_variants_and_adducts :: nat
  ms_total_variants :: nat
  ms_cons_list :: string
  ms_base_positions :: base_positions

definition refseq_at :: "refseq \<Rightarrow> string option \<Rightarrow> int \<Rightarrow> error + char" where
  "refseq_at rs ref_name refpos =
     (case ref_name of
        None \<Rightarrow> Inl (KeyError_refseq refpos)
      | Some c \<Rightarrow>
          (case map_of (refseq_contig rs c) refpos of
             None \<Rightarrow> Inl (KeyError_refseq refpos)
           | Some b \<Rightarrow> Inr b))"

text \<open>
  The slice that trims one strand:
  \<^verbatim>\<open>cons[start - start_pos : len(cons) - (end - end_pos)].upper()\<close>.
\<close>

definition trim_cons :: "int \<Rightarrow> int \<Rightarrow> strand_consensus \<Rightarrow> error + string" where
  "trim_cons start_pos end_pos sd =
     (case (ssc_cons sd, ssc_start sd, ssc_end sd) of
        (Some c, Some s, Some e) \<Rightarrow>
          Inr (map upper (py_slice c (s - start_pos) (int (length c) - (e - end_pos))))
      | _ \<Rightarrow> Inl TypeError)"

text \<open>The body of the loop, for one element of the \<^verbatim>\<open>zip\<close>.\<close>

definition merge_position ::
  "refseq \<Rightarrow> string option \<Rightarrow> int \<Rightarrow> int \<Rightarrow> int \<times> char \<times> char \<Rightarrow> merge_state
     \<Rightarrow> error + merge_state" where
  "merge_position rs ref_name start_pos end_pos x st =
     (case x of (refpos, pos_base, neg_base) \<Rightarrow>
      if pos_base \<notin> allowed_nucs \<or> neg_base \<notin> allowed_nucs
      then Inr (st\<lparr>ms_cons_list := ms_cons_list st @ [CHR ''N'']\<rparr>)
      else
       (case refseq_at rs ref_name refpos of
          Inl e \<Rightarrow> Inl e
        | Inr refbase \<Rightarrow>
           (let readpos = min (refpos - start_pos) (end_pos - refpos) + 1 in
            if \<not> readpos > 0 then Inl AssertionError
            else
             (let bp = ms_base_positions st;
                  st1 = st\<lparr>ms_nbases := ms_nbases st + 1,
                           ms_base_positions := bp\<lparr>bp_nreads := incr readpos (bp_nreads bp)\<rparr>,
                           ms_cons_list := ms_cons_list st @ [iupac pos_base neg_base]\<rparr>;
                  bp1 = ms_base_positions st1
              in
              if refbase \<notin> allowed_nucs then Inr st1
              else if pos_base \<noteq> refbase \<and> neg_base \<noteq> refbase then
                (if pos_base = neg_base then
                   Inr (st1\<lparr>ms_variants :=
                               AList.update refpos \<lparr>v_var = pos_base, v_ref = refbase\<rparr> (ms_variants st1),
                             ms_base_positions := bp1\<lparr>bp_variants := incr readpos (bp_variants bp1)\<rparr>,
                             ms_total_variants_and_adducts := ms_total_variants_and_adducts st1 + 1,
                             ms_total_variants := ms_total_variants st1 + 1\<rparr>)
                 else
                   (case complement neg_base of
                      Inl e \<Rightarrow> Inl e
                    | Inr cn \<Rightarrow>
                       (case complement refbase of
                          Inl e \<Rightarrow> Inl e
                        | Inr cr \<Rightarrow>
                           Inr (st1\<lparr>ms_variants :=
                                       AList.update refpos \<lparr>v_var = pos_base, v_ref = refbase\<rparr> (ms_variants st1),
                                     ms_adducts :=
                                       AList.update refpos \<lparr>a_strand = Neg, a_var = cn, a_ref = cr\<rparr> (ms_adducts st1),
                                     ms_base_positions :=
                                       bp1\<lparr>bp_variants := incr readpos (bp_variants bp1),
                                           bp_adducts := incr readpos (bp_adducts bp1)\<rparr>,
                                     ms_total_variants_and_adducts := ms_total_variants_and_adducts st1 + 1,
                                     ms_total_variants := ms_total_variants st1 + 1\<rparr>))))
              else if pos_base \<noteq> refbase then
                Inr (st1\<lparr>ms_adducts :=
                            AList.update refpos \<lparr>a_strand = Pos, a_var = pos_base, a_ref = refbase\<rparr> (ms_adducts st1),
                          ms_base_positions := bp1\<lparr>bp_adducts := incr readpos (bp_adducts bp1)\<rparr>,
                          ms_total_variants_and_adducts := ms_total_variants_and_adducts st1 + 1\<rparr>)
              else if neg_base \<noteq> refbase then
                (case complement neg_base of
                   Inl e \<Rightarrow> Inl e
                 | Inr cn \<Rightarrow>
                    (case complement refbase of
                       Inl e \<Rightarrow> Inl e
                     | Inr cr \<Rightarrow>
                        Inr (st1\<lparr>ms_adducts :=
                                    AList.update refpos \<lparr>a_strand = Neg, a_var = cn, a_ref = cr\<rparr> (ms_adducts st1),
                                  ms_base_positions := bp1\<lparr>bp_adducts := incr readpos (bp_adducts bp1)\<rparr>,
                                  ms_total_variants_and_adducts := ms_total_variants_and_adducts st1 + 1\<rparr>)))
              else Inr st1))))"

text \<open>The state of a fresh \<^verbatim>\<open>dsc_info\<close> entry, with the counters as they stand.\<close>

definition init_merge_state :: "base_positions \<Rightarrow> merge_state" where
  "init_merge_state bp =
     \<lparr>ms_nbases = 0, ms_adducts = [], ms_variants = [],
      ms_total_variants_and_adducts = 0, ms_total_variants = 0,
      ms_cons_list = [], ms_base_positions = bp\<rparr>"

definition merge_strands ::
  "refseq \<Rightarrow> family_strands \<Rightarrow> base_positions \<Rightarrow> error + duplex_consensus \<times> base_positions" where
  "merge_strands rs family_strands bp =
     (case py_max (ssc_start (fs_pos family_strands)) (ssc_start (fs_neg family_strands)) of
        Inl e \<Rightarrow> Inl e
      | Inr start_pos \<Rightarrow>
     (case py_min (ssc_end (fs_pos family_strands)) (ssc_end (fs_neg family_strands)) of
        Inl e \<Rightarrow> Inl e
      | Inr end_pos \<Rightarrow>
     (case trim_cons start_pos end_pos (fs_pos family_strands) of
        Inl e \<Rightarrow> Inl e
      | Inr pos_cons \<Rightarrow>
     (case trim_cons start_pos end_pos (fs_neg family_strands) of
        Inl e \<Rightarrow> Inl e
      | Inr neg_cons \<Rightarrow>
     (let ref_name = ssc_ref_name (fs_pos family_strands) in
      case fold_err (merge_position rs ref_name start_pos end_pos)
             (zip [start_pos..end_pos] (zip pos_cons neg_cons)) (init_merge_state bp) of
        Inl e \<Rightarrow> Inl e
      | Inr st \<Rightarrow>
          Inr (\<lparr>ds_ref_name = ref_name, ds_start = start_pos, ds_end = end_pos,
                ds_cons = ms_cons_list st, ds_nbases = ms_nbases st,
                ds_adducts = ms_adducts st, ds_variants = ms_variants st,
                ds_total_variants_and_adducts = ms_total_variants_and_adducts st,
                ds_total_variants = ms_total_variants st\<rparr>,
               ms_base_positions st))))))"

subsection \<open>ReadParser: \<^verbatim>\<open>parse_variants\<close>, \<^verbatim>\<open>parse_read\<close>, \<^verbatim>\<open>parse_bam\<close>\<close>

text \<open>
  What the code reads from one aligned record of the BAM library:
  \<^verbatim>\<open>get_reference_sequence()\<close> is \<open>reference_sequence\<close>, \<^verbatim>\<open>get_aligned_pairs()\<close> is
  \<open>aligned_pairs\<close>, with \<open>None\<close> on the side that an indel leaves out.
\<close>

record aligned_read =
  query_name :: string
  is_reverse :: bool
  reference_name :: string
  reference_start :: int
  reference_end :: int
  query_sequence :: string
  reference_sequence :: string
  aligned_pairs :: "(int option \<times> int option) list"

definition parse_pair ::
  "aligned_read \<Rightarrow> int option \<times> int option \<Rightarrow> refseq \<times> (int \<times> char) list
     \<Rightarrow> error + refseq \<times> (int \<times> char) list" where
  "parse_pair read pr st =
     (case pr of
        (Some qpos, Some rpos) \<Rightarrow>
          (case py_index (query_sequence read) qpos of
             Inl e \<Rightarrow> Inl e
           | Inr qc \<Rightarrow>
              (case py_index (reference_sequence read) (rpos - reference_start read) of
                 Inl e \<Rightarrow> Inl e
               | Inr rc \<Rightarrow>
                  (let qbase = upper qc; rbase = upper rc;
                       contig = reference_name read;
                       rs = AList.update contig
                              (AList.update rpos rbase (refseq_contig (fst st) contig)) (fst st)
                   in
                   if rbase \<notin> allowed_nucs \<or> qbase \<notin> allowed_nucs then Inr (rs, snd st)
                   else if qbase = rbase then Inr (rs, snd st)
                   else Inr (rs, AList.update rpos qbase (snd st)))))
      | _ \<Rightarrow> Inr st)"

definition parse_variants :: "aligned_read \<Rightarrow> refseq \<Rightarrow> error + refseq \<times> (int \<times> char) list" where
  "parse_variants read rs = fold_err (parse_pair read) (aligned_pairs read) (rs, [])"

definition parse_read ::
  "aligned_read \<Rightarrow> refseq \<Rightarrow> error + refseq \<times> string \<times> orientation \<times> read_details" where
  "parse_read read rs =
     (case parse_variants read rs of
        Inl e \<Rightarrow> Inl e
      | Inr (rs', variants) \<Rightarrow>
          Inr (rs', query_name read, (if is_reverse read then Rev else Fwd),
               \<lparr>rd_ref_name = reference_name read, rd_start = reference_start read,
                rd_end = reference_end read, rd_variants = variants\<rparr>))"

text \<open>The factory of \<^verbatim>\<open>read_info\<close>: both strands, both orientations, empty dictionaries.\<close>

definition default_family_reads :: family_reads where
  "default_family_reads = [(Pos, [(Fwd, None), (Rev, None)]), (Neg, [(Fwd, None), (Rev, None)])]"

text \<open>
  \<^verbatim>\<open>self.read_info[family_id][strand][orientation] = read_stats\<close>.  Both strands are
  keys of every family entry, so the lookup of the strand finds its dictionary.
\<close>

definition set_read ::
  "string \<Rightarrow> strand \<Rightarrow> orientation \<Rightarrow> read_details \<Rightarrow> read_info \<Rightarrow> read_info" where
  "set_read family_id strand orient read_stats ri =
     (let fr = (case map_of ri family_id of None \<Rightarrow> default_family_reads | Some fr \<Rightarrow> fr);
          sr = (case map_of fr strand of None \<Rightarrow> [] | Some sr \<Rightarrow> sr)
      in AList.update family_id
           (AList.update strand (AList.update orient (Some read_stats) sr) fr) ri)"

definition parse_bam ::
  "aligned_read list \<Rightarrow> strand \<Rightarrow> refseq \<times> read_info \<Rightarrow> error + refseq \<times> read_info" where
  "parse_bam bam strand =
     fold_err (\<lambda>read st.
       case parse_read read (fst st) of
         Inl e \<Rightarrow> Inl e
       | Inr (rs', family_id, orient, read_stats) \<Rightarrow>
           Inr (rs', set_read family_id strand orient read_stats (snd st))) bam"

subsection \<open>StrandMerger: \<^verbatim>\<open>merge_read_pair\<close>, \<^verbatim>\<open>merge_fwd_rev_per_strand\<close>\<close>

text \<open>What \<^verbatim>\<open>logger.info\<close> receives: the message, then the dump of the reads.\<close>

datatype log_entry =
    No_forward_and_reverse
  | Different_references string strand
  | Not_oriented_inwards string strand
  | Dump strand_reads

definition default_strand_consensus :: strand_consensus where
  "default_strand_consensus =
     \<lparr>ssc_ref_name = None, ssc_start = None, ssc_end = None, ssc_cons = None, ssc_variants = []\<rparr>"

definition default_family_strands :: family_strands where
  "default_family_strands = \<lparr>fs_pos = default_strand_consensus, fs_neg = default_strand_consensus\<rparr>"

definition get_strand :: "family_strands \<Rightarrow> strand \<Rightarrow> strand_consensus" where
  "get_strand fs strand = (case strand of Pos \<Rightarrow> fs_pos fs | Neg \<Rightarrow> fs_neg fs)"

definition set_strand :: "strand \<Rightarrow> strand_consensus \<Rightarrow> family_strands \<Rightarrow> family_strands" where
  "set_strand strand sc fs = (case strand of Pos \<Rightarrow> fs\<lparr>fs_pos := sc\<rparr> | Neg \<Rightarrow> fs\<lparr>fs_neg := sc\<rparr>)"

text \<open>\<^verbatim>\<open>self.ssc_info[family_id]\<close>: the factory makes the entry of a family not yet seen.\<close>

definition ssc_family :: "ssc_info \<Rightarrow> string \<Rightarrow> family_strands" where
  "ssc_family ssc family_id =
     (case map_of ssc family_id of None \<Rightarrow> default_family_strands | Some fs \<Rightarrow> fs)"

text \<open>The body of the loop over the variants of one read.\<close>

definition add_variant ::
  "refseq \<Rightarrow> string \<Rightarrow> orientation \<Rightarrow> read_details \<Rightarrow> int \<times> char \<Rightarrow> (int \<times> ssc_variant) list
     \<Rightarrow> error + (int \<times> ssc_variant) list" where
  "add_variant rs ref_name fwd_rev strand_info x variants =
     (case x of (refpos, variant_base) \<Rightarrow>
       (let readpos = (if fwd_rev = Fwd then (refpos - rd_start strand_info) + 1
                       else (rd_end strand_info - refpos) + 1)
        in case refseq_at rs (Some ref_name) refpos of
             Inl e \<Rightarrow> Inl e
           | Inr r \<Rightarrow>
               Inr (AList.update refpos
                      \<lparr>sv_readpos = readpos, sv_var = variant_base, sv_ref = r\<rparr> variants)))"

text \<open>
  The body of the loop over \<^verbatim>\<open>strand_reads.items()\<close>: the state is the variants of the
  strand consensus and \<^verbatim>\<open>covered_bases\<close>.
\<close>

definition add_read ::
  "refseq \<Rightarrow> string \<Rightarrow> orientation \<times> read_details option
     \<Rightarrow> (int \<times> ssc_variant) list \<times> (orientation \<times> int set) list
     \<Rightarrow> error + (int \<times> ssc_variant) list \<times> (orientation \<times> int set) list" where
  "add_read rs ref_name x st =
     (case x of
        (fwd_rev, None) \<Rightarrow> Inl (KeyError_read ''start'')
      | (fwd_rev, Some strand_info) \<Rightarrow>
          (let covered = AList.update fwd_rev {rd_start strand_info .. rd_end strand_info} (snd st)
           in case fold_err (add_variant rs ref_name fwd_rev strand_info)
                     (rd_variants strand_info) (fst st) of
                Inl e \<Rightarrow> Inl e
              | Inr variants \<Rightarrow> Inr (variants, covered)))"

definition build_cons ::
  "refseq \<Rightarrow> string \<Rightarrow> (int \<times> ssc_variant) list \<Rightarrow> int set \<Rightarrow> int \<Rightarrow> int \<Rightarrow> string" where
  "build_cons rs ref_name variants covered_bases start end_pos =
     map (\<lambda>pos.
       if pos \<in> covered_bases then
         (case map_of variants pos of
            Some v \<Rightarrow> sv_var v
          | None \<Rightarrow>
              (case map_of (refseq_contig rs ref_name) pos of None \<Rightarrow> CHR ''N'' | Some b \<Rightarrow> b))
       else CHR ''N'') [start..end_pos]"

definition dropped ::
  "log_entry \<Rightarrow> strand_reads \<Rightarrow> ssc_info \<times> log_entry list \<Rightarrow> error + ssc_info \<times> log_entry list" where
  "dropped msg strand_reads st = Inr (fst st, snd st @ [msg, Dump strand_reads])"

definition merge_read_pair ::
  "refseq \<Rightarrow> string \<Rightarrow> strand \<Rightarrow> strand_reads \<Rightarrow> ssc_info \<times> log_entry list
     \<Rightarrow> error + ssc_info \<times> log_entry list" where
  "merge_read_pair rs family_id strand strand_reads st =
     (if map_of strand_reads Fwd = None \<or> map_of strand_reads Rev = None
      then dropped No_forward_and_reverse strand_reads st
      else
       (case (map_of strand_reads Fwd, map_of strand_reads Rev) of
          (Some None, _) \<Rightarrow> Inl (KeyError_read ''ref_name'')
        | (Some (Some fwd_read), Some None) \<Rightarrow>
            dropped (Different_references family_id strand) strand_reads st
        | (Some (Some fwd_read), Some (Some rev_read)) \<Rightarrow>
            (let ref_name = rd_ref_name fwd_read in
             if ref_name \<noteq> rd_ref_name rev_read
             then dropped (Different_references family_id strand) strand_reads st
             else if rd_start fwd_read \<ge> rd_end rev_read
             then dropped (Not_oriented_inwards family_id strand) strand_reads st
             else
              (let entry = get_strand (ssc_family (fst st) family_id) strand;
                   start = rd_start fwd_read;
                   end_pos = rd_end rev_read
               in case fold_err (add_read rs ref_name) strand_reads (ssc_variants entry, []) of
                    Inl e \<Rightarrow> Inl e
                  | Inr (variants, covered) \<Rightarrow>
                     (case (map_of covered Fwd, map_of covered Rev) of
                        (Some cf, Some cr) \<Rightarrow>
                          (let sc = \<lparr>ssc_ref_name = Some ref_name, ssc_start = Some start,
                                     ssc_end = Some end_pos,
                                     ssc_cons = Some (build_cons rs ref_name variants (cf \<union> cr) start end_pos),
                                     ssc_variants = variants\<rparr>
                           in Inr (AList.update family_id
                                     (set_strand strand sc (ssc_family (fst st) family_id)) (fst st),
                                   snd st))
                      | _ \<Rightarrow> Inl (KeyError_read ''fwd''))))
        | _ \<Rightarrow> Inl (KeyError_read ''fwd'')))"

definition merge_fwd_rev_per_strand ::
  "refseq \<Rightarrow> read_info \<Rightarrow> error + ssc_info \<times> log_entry list" where
  "merge_fwd_rev_per_strand rs ri =
     fold_err (\<lambda>(family_id, family_reads).
        fold_err (\<lambda>(strand, strand_reads). merge_read_pair rs family_id strand strand_reads)
          family_reads) ri ([], [])"

subsection \<open>DuplexMerger over all families: \<^verbatim>\<open>merge_pos_neg_strands\<close>\<close>

definition empty_base_positions :: base_positions where
  "empty_base_positions = \<lparr>bp_adducts = [], bp_variants = [], bp_nreads = []\<rparr>"

definition merge_pos_neg_strands :: "refseq \<Rightarrow> ssc_info \<Rightarrow> error + dsc_info \<times> base_positions" where
  "merge_pos_neg_strands rs ssc =
     fold_err (\<lambda>(family_id, family_strands) st.
        case merge_strands rs family_strands (snd st) of
          Inl e \<Rightarrow> Inl e
        | Inr (dsc, bp) \<Rightarrow> Inr (AList.update family_id dsc (fst st), bp)) ssc
       ([], empty_base_positions)"

subsection \<open>The pipeline of \<^verbatim>\<open>ParseSSC.__init__\<close>, up to the duplex map\<close>

record parse_ssc =
  p_refseq :: refseq
  p_read_info :: read_info
  p_ssc_info :: ssc_info
  p_log :: "log_entry list"
  p_dsc_info :: dsc_info
  p_base_positions :: base_positions

definition ParseSSC :: "aligned_read list \<Rightarrow> aligned_read list \<Rightarrow> error + parse_ssc" where
  "ParseSSC input_pos_bam input_neg_bam =
     (case parse_bam input_pos_bam Pos ([], []) of
        Inl e \<Rightarrow> Inl e
      | Inr st1 \<Rightarrow>
     (case parse_bam input_neg_bam Neg st1 of
        Inl e \<Rightarrow> Inl e
      | Inr (rs, ri) \<Rightarrow>
     (case merge_fwd_rev_per_strand rs ri of
        Inl e \<Rightarrow> Inl e
      | Inr (ssc, log) \<Rightarrow>
     (case merge_pos_neg_strands rs ssc of
        Inl e \<Rightarrow> Inl e
      | Inr (dsc, bp) \<Rightarrow>
          Inr \<lparr>p_refseq = rs, p_read_info = ri, p_ssc_info = ssc, p_log = log,
               p_dsc_info = dsc, p_base_positions = bp\<rparr>))))"

subsection \<open>ThresholdEmitter: the families kept by \<^verbatim>\<open>write_output\<close>\<close>

text \<open>
  \<^verbatim>\<open>filter_on\<close> is asserted to be one of two field names when the script starts;
  \<open>filter_metric\<close> is \<^verbatim>\<open>dsc[self.filter_on]\<close>.
\<close>

datatype filter_on = total_variants | total_variants_and_adducts

definition filter_metric :: "filter_on \<Rightarrow> duplex_consensus \<Rightarrow> int" where
  "filter_metric fo dsc =
     (case fo of
        total_variants \<Rightarrow> int (ds_total_variants dsc)
      | total_variants_and_adducts \<Rightarrow> int (ds_total_variants_and_adducts dsc))"

definition keep_families :: "filter_on \<Rightarrow> dsc_info \<Rightarrow> int option \<Rightarrow> string set" where
  "keep_families fo dsc max_vars =
     set (map fst (filter (\<lambda>(family_id, d).
        (case max_vars of None \<Rightarrow> True | Some t \<Rightarrow> filter_metric fo d \<le> t)) dsc))"

subsection \<open>SummaryFormatter: \<^verbatim>\<open>format_summary\<close>\<close>

text \<open>A \<^verbatim>\<open>defaultdict(int)\<close>: reading a missing key gives 0, \<^verbatim>\<open>d[k] += n\<close> stores the sum.\<close>

definition count_of :: "('k \<times> nat) list \<Rightarrow> 'k \<Rightarrow> nat" where
  "count_of d k = (case map_of d k of None \<Rightarrow> 0 | Some n \<Rightarrow> n)"

definition add_count :: "'k \<Rightarrow> nat \<Rightarrow> ('k \<times> nat) list \<Rightarrow> ('k \<times> nat) list" where
  "add_count k n d = AList.update k (count_of d k + n) d"

text \<open>A \<^verbatim>\<open>defaultdict\<close> of \<^verbatim>\<open>defaultdict(int)\<close>.\<close>

definition counts_of :: "('c \<times> ('k \<times> nat) list) list \<Rightarrow> 'c \<Rightarrow> ('k \<times> nat) list" where
  "counts_of d c = (case map_of d c of None \<Rightarrow> [] | Some m \<Rightarrow> m)"

definition add_count2 ::
  "'c \<Rightarrow> 'k \<Rightarrow> nat \<Rightarrow> ('c \<times> ('k \<times> nat) list) list \<Rightarrow> ('c \<times> ('k \<times> nat) list) list" where
  "add_count2 c k n d = AList.update c (add_count k n (counts_of d c)) d"

record summary =
  total_counts :: "(string \<times> nat) list"
  chr_counts :: "(string option \<times> (string \<times> nat) list) list"
  variant_base_changes :: "(char \<times> (char \<times> nat) list) list"
  adduct_base_changes :: "(char \<times> (char \<times> nat) list) list"

definition empty_summary :: summary where
  "empty_summary =
     \<lparr>total_counts = [], chr_counts = [], variant_base_changes = [], adduct_base_changes = []\<rparr>"

definition count_variant :: "string option \<Rightarrow> variant_info \<Rightarrow> summary \<Rightarrow> summary" where
  "count_variant ref_name variant_info s =
     s\<lparr>total_counts := add_count ''variants'' 1 (total_counts s),
       chr_counts := add_count2 ref_name ''variants'' 1 (chr_counts s),
       variant_base_changes :=
         add_count2 (v_var variant_info) (v_ref variant_info) 1 (variant_base_changes s)\<rparr>"

definition count_adduct :: "string option \<Rightarrow> adduct_info \<Rightarrow> summary \<Rightarrow> summary" where
  "count_adduct ref_name adduct_info s =
     s\<lparr>total_counts := add_count ''adducts'' 1 (total_counts s),
       chr_counts := add_count2 ref_name ''adducts'' 1 (chr_counts s),
       adduct_base_changes :=
         add_count2 (a_var adduct_info) (a_ref adduct_info) 1 (adduct_base_changes s)\<rparr>"

text \<open>The body of the loop over \<^verbatim>\<open>self.dsc_info.items()\<close>.\<close>

definition count_family :: "string set \<Rightarrow> string \<times> duplex_consensus \<Rightarrow> summary \<Rightarrow> summary" where
  "count_family keep x s =
     (case x of (family_id, dsc) \<Rightarrow>
       if family_id \<notin> keep then s
       else
        (let c = ds_ref_name dsc;
             s1 = s\<lparr>total_counts := add_count ''ssc'' 1 (total_counts s),
                    chr_counts := add_count2 c ''families'' 1 (chr_counts s)\<rparr>;
             s2 = s1\<lparr>total_counts := add_count ''bases'' (ds_nbases dsc) (total_counts s1),
                     chr_counts := add_count2 c ''bases'' (ds_nbases dsc) (chr_counts s1)\<rparr>;
             s3 = s2\<lparr>total_counts := add_count ''adducts'' (length (ds_adducts dsc)) (total_counts s2),
                     chr_counts := add_count2 c ''adducts'' (length (ds_adducts dsc)) (chr_counts s2)\<rparr>;
             s4 = fold (count_variant c) (map snd (ds_variants dsc)) s3
         in fold (count_adduct c) (map snd (ds_adducts dsc)) s4))"

text \<open>
  The four tallies of \<^verbatim>\<open>format_summary\<close>, before the specimen name is added and the
  tables are turned into data frames.
\<close>

definition format_summary :: "dsc_info \<Rightarrow> string set \<Rightarrow> summary" where
  "format_summary dsc keep = fold (count_family keep) dsc empty_summary"

section \<open>Specification-side definitions\<close>

subsection \<open>The classification table\<close>

text \<open>
  The table of the specification, written from its words: what a position with the strand
  bases \<open>P\<close>, \<open>N\<close> and the reference base \<open>R\<close>, all among A, T, C, G, records as a
  variant and as an adduct.
\<close>

definition spec_complement :: "char \<Rightarrow> char" where
  "spec_complement b =
     (if b = CHR ''A'' then CHR ''T'' else if b = CHR ''T'' then CHR ''A''
      else if b = CHR ''C'' then CHR ''G'' else if b = CHR ''G'' then CHR ''C'' else b)"

definition spec_table :: "char \<Rightarrow> char \<Rightarrow> char \<Rightarrow> variant_info option \<times> adduct_info option" where
  "spec_table P N R =
     (if P \<noteq> R \<and> N \<noteq> R \<and> P = N then (Some \<lparr>v_var = P, v_ref = R\<rparr>, None)
      else if P \<noteq> R \<and> N \<noteq> R \<and> P \<noteq> N then
        (Some \<lparr>v_var = P, v_ref = R\<rparr>,
         Some \<lparr>a_strand = Neg, a_var = spec_complement N, a_ref = spec_complement R\<rparr>)
      else if P \<noteq> R then (None, Some \<lparr>a_strand = Pos, a_var = P, a_ref = R\<rparr>)
      else if N \<noteq> R then
        (None, Some \<lparr>a_strand = Neg, a_var = spec_complement N, a_ref = spec_complement R\<rparr>)
      else (None, None))"

definition position_calls ::
  "refseq \<Rightarrow> string option \<Rightarrow> int \<times> char \<times> char \<Rightarrow> variant_info option \<times> adduct_info option" where
  "position_calls rs ref_name x =
     (case x of (refpos, P, N) \<Rightarrow>
        if P \<in> allowed_nucs \<and> N \<in> allowed_nucs then
          (case refseq_at rs ref_name refpos of
             Inl e \<Rightarrow> (None, None)
           | Inr R \<Rightarrow> if R \<in> allowed_nucs then spec_table P N R else (None, None))
        else (None, None))"

text \<open>
  What \<^verbatim>\<open>merge_read_pair\<close> leaves in a strand entry that it has filled: the span
  and a consensus over it.
\<close>

definition merged_strand :: "strand_consensus \<Rightarrow> bool" where
  "merged_strand sc =
     (case (ssc_start sc, ssc_end sc, ssc_cons sc) of
        (Some s, Some e, Some c) \<Rightarrow> s < e \<and> length c = nat (e - s + 1)
      | _ \<Rightarrow> False)"

definition strand_ok :: "strand_consensus \<Rightarrow> bool" where
  "strand_ok sc = (ssc_start sc = None \<or> merged_strand sc)"

definition ssc_ok :: "ssc_info \<Rightarrow> bool" where
  "ssc_ok ssc =
     (distinct (map fst ssc)
      \<and> list_all (\<lambda>(family_id, fs). strand_ok (fs_pos fs) \<and> strand_ok (fs_neg fs)) ssc)"

text \<open>
  The case of the specification's table that a zipped position falls under (1 to 7); 0
  stands for a reference position that is not cached, where the code raises.
\<close>

definition position_case :: "refseq \<Rightarrow> string option \<Rightarrow> int \<times> char \<times> char \<Rightarrow> nat" where
  "position_case rs ref_name x =
     (case x of (refpos, P, N) \<Rightarrow>
        if P \<notin> allowed_nucs \<or> N \<notin> allowed_nucs then 1
        else
          (case refseq_at rs ref_name refpos of
             Inl e \<Rightarrow> 0
           | Inr R \<Rightarrow>
               if R \<notin> allowed_nucs then 2
               else if P = R \<and> N = R then 3
               else if P \<noteq> R \<and> N \<noteq> R \<and> P = N then 4
               else if P \<noteq> R \<and> N \<noteq> R then 5
               else if P \<noteq> R then 6
               else 7))"

definition count_case ::
  "refseq \<Rightarrow> string option \<Rightarrow> (int \<times> char \<times> char) list \<Rightarrow> nat \<Rightarrow> nat" where
  "count_case rs ref_name xs c = length (filter (\<lambda>x. position_case rs ref_name x = c) xs)"

text \<open>The kept entries of the duplex map, in the order of the map.\<close>

definition kept :: "string set \<Rightarrow> dsc_info \<Rightarrow> duplex_consensus list" where
  "kept keep dsc = map snd (filter (\<lambda>x. fst x \<in> keep) dsc)"

definition adduct_entries :: "duplex_consensus list \<Rightarrow> nat" where
  "adduct_entries ds = sum_list (map (\<lambda>d. length (ds_adducts d)) ds)"

text \<open>
  The shape of \<^verbatim>\<open>read_info\<close>: every family has both strands, every strand both
  orientations, as the factory makes them.
\<close>

definition strand_reads_ok :: "strand_reads \<Rightarrow> bool" where
  "strand_reads_ok sr = (map fst sr = [Fwd, Rev])"

definition family_reads_ok :: "family_reads \<Rightarrow> bool" where
  "family_reads_ok fr = (map fst fr = [Pos, Neg] \<and> list_all (\<lambda>x. strand_reads_ok (snd x)) fr)"

definition read_info_ok :: "read_info \<Rightarrow> bool" where
  "read_info_ok ri = list_all (\<lambda>x. family_reads_ok (snd x)) ri"

text \<open>
  The base of a strand consensus at a reference position of its span, in upper case as
  the trimming leaves it: the \<open>P\<close> and \<open>N\<close> of the specification.
\<close>

definition strand_base :: "strand_consensus \<Rightarrow> int \<Rightarrow> char option" where
  "strand_base sc q =
     (case (ssc_start sc, ssc_end sc, ssc_cons sc) of
        (Some s, Some e, Some c) \<Rightarrow>
          if s \<le> q \<and> q \<le> e \<and> nat (q - s) < length c then Some (upper (c ! nat (q - s)))
          else None
      | _ \<Rightarrow> None)"

text \<open>
  What a run holds for a family at a reference position: the two strand bases with the
  cached reference base, and the entries of the variants and adducts maps.
\<close>

definition bases_at ::
  "error + parse_ssc \<Rightarrow> string \<Rightarrow> int \<Rightarrow> (char option \<times> char option \<times> (error + char)) option" where
  "bases_at run family_id q =
     (case run of
        Inl e \<Rightarrow> None
      | Inr p \<Rightarrow>
          (case (map_of (p_ssc_info p) family_id, map_of (p_dsc_info p) family_id) of
             (Some fs, Some d) \<Rightarrow>
               Some (strand_base (fs_pos fs) q, strand_base (fs_neg fs) q,
                     refseq_at (p_refseq p) (ds_ref_name d) q)
           | _ \<Rightarrow> None))"

definition calls_at ::
  "error + parse_ssc \<Rightarrow> string \<Rightarrow> int \<Rightarrow> (variant_info option \<times> adduct_info option) option" where
  "calls_at run family_id q =
     (case run of
        Inl e \<Rightarrow> None
      | Inr p \<Rightarrow>
          (case map_of (p_dsc_info p) family_id of
             None \<Rightarrow> None
           | Some d \<Rightarrow> Some (map_of (ds_variants d) q, map_of (ds_adducts d) q)))"

text \<open>The adduct tallies of a summary: overall, and of one contig.\<close>

definition total_adducts :: "summary \<Rightarrow> nat" where
  "total_adducts s = count_of (total_counts s) ''adducts''"

definition chr_adducts :: "summary \<Rightarrow> string option \<Rightarrow> nat" where
  "chr_adducts s c = count_of (counts_of (chr_counts s) c) ''adducts''"

text \<open>The span and consensus of a family at the end of a run, if the run ends and has it.\<close>

definition dsc_span :: "error + parse_ssc \<Rightarrow> string \<Rightarrow> (int \<times> int \<times> string) option" where
  "dsc_span run family_id =
     (case run of
        Inl e \<Rightarrow> None
      | Inr p \<Rightarrow>
          (case map_of (p_dsc_info p) family_id of
             None \<Rightarrow> None
           | Some d \<Rightarrow> Some (ds_start d, ds_end d, ds_cons d)))"

text \<open>The first three stages of \<open>ParseSSC\<close>: both inputs parsed, each strand merged.\<close>

definition merged_strands ::
  "aligned_read list \<Rightarrow> aligned_read list \<Rightarrow> error + ssc_info \<times> log_entry list" where
  "merged_strands input_pos_bam input_neg_bam =
     (case parse_bam input_pos_bam Pos ([], []) of
        Inl e \<Rightarrow> Inl e
      | Inr st1 \<Rightarrow>
          (case parse_bam input_neg_bam Neg st1 of
             Inl e \<Rightarrow> Inl e
           | Inr (rs, ri) \<Rightarrow> merge_fwd_rev_per_strand rs ri))"

subsection \<open>Example inputs\<close>

text \<open>
  An aligned record without indels or clipping; the end coordinate is one past the last
  aligned position, as the BAM library reports it.
\<close>

definition mk_read :: "string \<Rightarrow> bool \<Rightarrow> string \<Rightarrow> int \<Rightarrow> string \<Rightarrow> string \<Rightarrow> aligned_read" where
  "mk_read name is_rev contig start qseq rseq =
     \<lparr>query_name = name, is_reverse = is_rev, reference_name = contig,
      reference_start = start, reference_end = start + int (length qseq),
      query_sequence = qseq, reference_sequence = rseq,
      aligned_pairs = map (\<lambda>i. (Some (int i), Some (start + int i))) [0..<length qseq]\<rparr>"

text \<open>Both reads of one strand of a family, covering the same span.\<close>

definition mk_pair :: "string \<Rightarrow> string \<Rightarrow> int \<Rightarrow> string \<Rightarrow> string \<Rightarrow> aligned_read list" where
  "mk_pair name contig start qseq rseq =
     [mk_read name False contig start qseq rseq, mk_read name True contig start qseq rseq]"

text \<open>
  Dual mismatch: the reference is \<open>ACGT\<close> at positions 100 to 103 of \<open>chr1\<close>, the
  positive strand reads \<open>ATGT\<close> and the negative strand reads \<open>AGGT\<close>.
\<close>

definition ex5_pos :: "aligned_read list" where
  "ex5_pos = mk_pair ''F1'' ''chr1'' 100 ''ATGT'' ''ACGT''"

definition ex5_neg :: "aligned_read list" where
  "ex5_neg = mk_pair ''F1'' ''chr1'' 100 ''AGGT'' ''ACGT''"

definition ex_refseq :: refseq where
  "ex_refseq = [(''chr1'', [(100, CHR ''A''), (101, CHR ''C''), (102, CHR ''G''), (103, CHR ''T'')])]"

definition ex_read :: "(int \<times> char) list \<Rightarrow> read_details option" where
  "ex_read variants =
     Some \<lparr>rd_ref_name = ''chr1'', rd_start = 100, rd_end = 104, rd_variants = variants\<rparr>"

definition ex_strand :: "string \<Rightarrow> (int \<times> ssc_variant) list \<Rightarrow> strand_consensus" where
  "ex_strand cons variants =
     \<lparr>ssc_ref_name = Some ''chr1'', ssc_start = Some 100, ssc_end = Some 104,
      ssc_cons = Some cons, ssc_variants = variants\<rparr>"

definition ex5_fs :: family_strands where
  "ex5_fs =
     \<lparr>fs_pos = ex_strand ''ATGTN''
                [(101, \<lparr>sv_readpos = 4, sv_var = CHR ''T'', sv_ref = CHR ''C''\<rparr>)],
      fs_neg = ex_strand ''AGGTN''
                [(101, \<lparr>sv_readpos = 4, sv_var = CHR ''G'', sv_ref = CHR ''C''\<rparr>)]\<rparr>"

definition ex5_dsc :: duplex_consensus where
  "ex5_dsc =
     \<lparr>ds_ref_name = Some ''chr1'', ds_start = 100, ds_end = 104, ds_cons = ''AKGTN'',
      ds_nbases = 4,
      ds_adducts = [(101, \<lparr>a_strand = Neg, a_var = CHR ''C'', a_ref = CHR ''G''\<rparr>)],
      ds_variants = [(101, \<lparr>v_var = CHR ''T'', v_ref = CHR ''C''\<rparr>)],
      ds_total_variants_and_adducts = 1, ds_total_variants = 1\<rparr>"

definition ex5_state :: parse_ssc where
  "ex5_state =
     \<lparr>p_refseq = ex_refseq,
      p_read_info =
        [(''F1'', [(Pos, [(Fwd, ex_read [(101, CHR ''T'')]), (Rev, ex_read [(101, CHR ''T'')])]),
                  (Neg, [(Fwd, ex_read [(101, CHR ''G'')]), (Rev, ex_read [(101, CHR ''G'')])])])],
      p_ssc_info = [(''F1'', ex5_fs)],
      p_log = [],
      p_dsc_info = [(''F1'', ex5_dsc)],
      p_base_positions =
        \<lparr>bp_adducts = [(2, 1)], bp_variants = [(2, 1)], bp_nreads = [(1, 1), (2, 2), (3, 1)]\<rparr>\<rparr>"

text \<open>
  Strands that do not overlap (positions 100 to 104 and 200 to 204), and strands that start
  two positions apart (100 to 106 and 102 to 106), all reads matching the reference.
\<close>

definition ex_apart_pos :: "aligned_read list" where
  "ex_apart_pos = mk_pair ''F1'' ''chr1'' 100 ''ACGT'' ''ACGT''"

definition ex_apart_neg :: "aligned_read list" where
  "ex_apart_neg = mk_pair ''F1'' ''chr1'' 200 ''ACGT'' ''ACGT''"

definition ex_shift_pos :: "aligned_read list" where
  "ex_shift_pos = mk_pair ''F1'' ''chr1'' 100 ''ACGTAC'' ''ACGTAC''"

definition ex_shift_neg :: "aligned_read list" where
  "ex_shift_neg = mk_pair ''F1'' ''chr1'' 102 ''GTAC'' ''GTAC''"

text \<open>
  Two families; the second has all four reads, the first lacks the reverse read, or the
  forward read, of its negative strand.
\<close>

definition ex_two_pos :: "aligned_read list" where
  "ex_two_pos = mk_pair ''F1'' ''chr1'' 100 ''ACGT'' ''ACGT'' @ mk_pair ''F2'' ''chr1'' 100 ''ACGT'' ''ACGT''"

definition ex_no_rev_neg :: "aligned_read list" where
  "ex_no_rev_neg =
     mk_read ''F1'' False ''chr1'' 100 ''ACGT'' ''ACGT'' # mk_pair ''F2'' ''chr1'' 100 ''ACGT'' ''ACGT''"

definition ex_no_fwd_neg :: "aligned_read list" where
  "ex_no_fwd_neg =
     mk_read ''F1'' True ''chr1'' 100 ''ACGT'' ''ACGT'' # mk_pair ''F2'' ''chr1'' 100 ''ACGT'' ''ACGT''"

text \<open>
  A forward and a reverse read of one strand that disagree at position 101; the forward
  read alone has a variant at 100, the reverse read alone at 102.
\<close>

definition ex7_fwd :: read_details where
  "ex7_fwd = \<lparr>rd_ref_name = ''chr1'', rd_start = 100, rd_end = 104,
              rd_variants = [(100, CHR ''G''), (101, CHR ''T'')]\<rparr>"

definition ex7_rev :: read_details where
  "ex7_rev = \<lparr>rd_ref_name = ''chr1'', rd_start = 100, rd_end = 104,
              rd_variants = [(101, CHR ''G''), (102, CHR ''C'')]\<rparr>"

definition ex7_ssc :: ssc_info where
  "ex7_ssc =
     [(''F1'',
       \<lparr>fs_pos = ex_strand ''GGCTN''
                  [(100, \<lparr>sv_readpos = 1, sv_var = CHR ''G'', sv_ref = CHR ''A''\<rparr>),
                   (101, \<lparr>sv_readpos = 4, sv_var = CHR ''G'', sv_ref = CHR ''C''\<rparr>),
                   (102, \<lparr>sv_readpos = 3, sv_var = CHR ''C'', sv_ref = CHR ''G''\<rparr>)],
        fs_neg = default_strand_consensus\<rparr>)]"

text \<open>Two duplex entries that differ in their counters only.\<close>

definition ex_family :: "nat \<Rightarrow> nat \<Rightarrow> duplex_consensus" where
  "ex_family tv tva =
     \<lparr>ds_ref_name = Some ''chr1'', ds_start = 100, ds_end = 104, ds_cons = ''ACGTN'',
      ds_nbases = 4, ds_adducts = [], ds_variants = [],
      ds_total_variants_and_adducts = tva, ds_total_variants = tv\<rparr>"

definition ex8_dsc :: dsc_info where
  "ex8_dsc = [(''F1'', ex_family 0 0), (''F2'', ex_family 3 3)]"

text \<open>
  Strands that start two positions apart and both read \<open>T\<close> for the reference \<open>A\<close> at
  position 104.
\<close>

definition ex_miss_pos :: "aligned_read list" where
  "ex_miss_pos = mk_pair ''F1'' ''chr1'' 100 ''ACGTTC'' ''ACGTAC''"

definition ex_miss_neg :: "aligned_read list" where
  "ex_miss_neg = mk_pair ''F1'' ''chr1'' 102 ''GTTC'' ''GTAC''"

section \<open>One position of the duplex loop\<close>

text \<open>
  What one successful run of the loop body does to the two maps and to the counters of
  the family, in terms of the table.
\<close>

lemma complement_allowed: "b \<in> allowed_nucs \<Longrightarrow> complement b = Inr (spec_complement b)"
  by (auto simp: allowed_nucs_def complement_def spec_complement_def)

lemma merge_position_variants:
  assumes "merge_position rs rn s e x st = Inr st'"
  shows "ms_variants st' =
     (case fst (position_calls rs rn x) of
        None \<Rightarrow> ms_variants st
      | Some v \<Rightarrow> AList.update (fst x) v (ms_variants st))"
  using assms unfolding merge_position_def position_calls_def spec_table_def
  by (auto simp: Let_def complement_allowed split: prod.splits sum.splits if_splits)

lemma merge_position_adducts:
  assumes "merge_position rs rn s e x st = Inr st'"
  shows "ms_adducts st' =
     (case snd (position_calls rs rn x) of
        None \<Rightarrow> ms_adducts st
      | Some v \<Rightarrow> AList.update (fst x) v (ms_adducts st))"
  using assms unfolding merge_position_def position_calls_def spec_table_def
  by (auto simp: Let_def complement_allowed split: prod.splits sum.splits if_splits)

lemma merge_position_total_variants:
  assumes "merge_position rs rn s e x st = Inr st'"
  shows "ms_total_variants st' =
     ms_total_variants st + (if fst (position_calls rs rn x) = None then 0 else 1)"
  using assms unfolding merge_position_def position_calls_def spec_table_def
  by (auto simp: Let_def complement_allowed split: prod.splits sum.splits if_splits)

lemma merge_position_total_variants_and_adducts:
  assumes "merge_position rs rn s e x st = Inr st'"
  shows "ms_total_variants_and_adducts st' =
     ms_total_variants_and_adducts st + (if position_calls rs rn x = (None, None) then 0 else 1)"
  using assms unfolding merge_position_def position_calls_def spec_table_def
  by (auto simp: Let_def complement_allowed split: prod.splits sum.splits if_splits)

lemma merge_position_cons:
  assumes "merge_position rs rn s e x st = Inr st'"
  shows "length (ms_cons_list st') = length (ms_cons_list st) + 1"
  using assms unfolding merge_position_def
  by (auto simp: Let_def split: prod.splits sum.splits if_splits)

lemma merge_position_no_complement_error:
  "merge_position rs rn s e x st \<noteq> Inl (KeyError_complement b)"
  unfolding merge_position_def
  by (auto simp: Let_def complement_allowed refseq_at_def split: prod.splits sum.splits if_splits option.splits)

section \<open>The duplex loop\<close>

text \<open>
  The reference positions of the zipped list are distinct, so the entry of a position in
  the final maps is the one its own step wrote.
\<close>

lemma length_update:
  "length (AList.update k v al) = (if k \<in> fst ` set al then length al else Suc (length al))"
  by (induct al) auto

lemma subset_insert_disjoint:
  "A \<subseteq> insert a K \<Longrightarrow> K \<inter> S = {} \<Longrightarrow> a \<notin> S \<Longrightarrow> A \<inter> S = {}"
  by blast

lemma fold_err_Cons_Inr:
  assumes "fold_err f (x # xs) s = Inr s'"
  obtains s1 where "f x s = Inr s1" and "fold_err f xs s1 = Inr s'"
  using assms by (auto split: sum.splits)

lemma fold_err_Inl:
  assumes "fold_err f xs s = Inl e"
  shows "\<exists>x s0. x \<in> set xs \<and> f x s0 = Inl e"
  using assms
proof (induction xs arbitrary: s)
  case Nil
  then show ?case by simp
next
  case (Cons x xs)
  show ?case
  proof (cases "f x s")
    case (Inl e')
    with Cons.prems have "e' = e" by simp
    with Inl show ?thesis by auto
  next
    case (Inr s1)
    with Cons.prems have "fold_err f xs s1 = Inl e" by simp
    from Cons.IH[OF this] show ?thesis by auto
  qed
qed

lemma positions_frame:
  assumes "fold_err (merge_position rs rn s e) xs st = Inr st'" and "q \<notin> fst ` set xs"
  shows "map_of (ms_variants st') q = map_of (ms_variants st) q
       \<and> map_of (ms_adducts st') q = map_of (ms_adducts st) q"
  using assms
proof (induction xs arbitrary: st)
  case Nil
  then show ?case by simp
next
  case (Cons x xs)
  from Cons.prems(1) obtain st1 where s1: "merge_position rs rn s e x st = Inr st1"
    and r: "fold_err (merge_position rs rn s e) xs st1 = Inr st'"
    by (rule fold_err_Cons_Inr)
  from Cons.prems(2) have ne: "q \<noteq> fst x" and nin: "q \<notin> fst ` set xs" by auto
  have v: "map_of (ms_variants st1) q = map_of (ms_variants st) q"
    using merge_position_variants[OF s1] ne by (simp add: update_conv' split: option.splits)
  have a: "map_of (ms_adducts st1) q = map_of (ms_adducts st) q"
    using merge_position_adducts[OF s1] ne by (simp add: update_conv' split: option.splits)
  from Cons.IH[OF r nin] v a show ?case by simp
qed

lemma positions_at:
  assumes "fold_err (merge_position rs rn s e) xs st = Inr st'"
    and "distinct (map fst xs)" and "x \<in> set xs"
    and "map_of (ms_variants st) (fst x) = None" and "map_of (ms_adducts st) (fst x) = None"
  shows "map_of (ms_variants st') (fst x) = fst (position_calls rs rn x)
       \<and> map_of (ms_adducts st') (fst x) = snd (position_calls rs rn x)"
  using assms
proof (induction xs arbitrary: st)
  case Nil
  then show ?case by simp
next
  case (Cons y xs)
  from Cons.prems(1) obtain st1 where s1: "merge_position rs rn s e y st = Inr st1"
    and r: "fold_err (merge_position rs rn s e) xs st1 = Inr st'"
    by (rule fold_err_Cons_Inr)
  from Cons.prems(2) have d: "distinct (map fst xs)" and ny: "fst y \<notin> fst ` set xs" by auto
  show ?case
  proof (cases "x = y")
    case True
    have v: "map_of (ms_variants st1) (fst x) = fst (position_calls rs rn x)"
      using merge_position_variants[OF s1] Cons.prems(4) True
      by (simp add: update_conv' split: option.splits)
    have a: "map_of (ms_adducts st1) (fst x) = snd (position_calls rs rn x)"
      using merge_position_adducts[OF s1] Cons.prems(5) True
      by (simp add: update_conv' split: option.splits)
    from positions_frame[OF r] ny True v a show ?thesis by simp
  next
    case False
    with Cons.prems(3) have xin: "x \<in> set xs" by simp
    then have fx: "fst x \<in> fst ` set xs" by (rule imageI)
    have ne: "fst x \<noteq> fst y"
    proof
      assume "fst x = fst y"
      with fx have "fst y \<in> fst ` set xs" by simp
      with ny show False by (rule notE)
    qed
    have v: "map_of (ms_variants st1) (fst x) = None"
      using merge_position_variants[OF s1] Cons.prems(4) ne
      by (simp add: update_conv' split: option.splits)
    have a: "map_of (ms_adducts st1) (fst x) = None"
      using merge_position_adducts[OF s1] Cons.prems(5) ne
      by (simp add: update_conv' split: option.splits)
    from Cons.IH[OF r d xin v a] show ?thesis .
  qed
qed

lemma positions_total_variants:
  assumes "fold_err (merge_position rs rn s e) xs st = Inr st'"
  shows "ms_total_variants st' =
     ms_total_variants st + length (filter (\<lambda>x. fst (position_calls rs rn x) \<noteq> None) xs)"
  using assms
proof (induction xs arbitrary: st)
  case Nil
  then show ?case by simp
next
  case (Cons x xs)
  from Cons.prems(1) obtain st1 where s1: "merge_position rs rn s e x st = Inr st1"
    and r: "fold_err (merge_position rs rn s e) xs st1 = Inr st'"
    by (rule fold_err_Cons_Inr)
  from Cons.IH[OF r] merge_position_total_variants[OF s1] show ?case by simp
qed

lemma positions_total_variants_and_adducts:
  assumes "fold_err (merge_position rs rn s e) xs st = Inr st'"
  shows "ms_total_variants_and_adducts st' =
     ms_total_variants_and_adducts st
       + length (filter (\<lambda>x. position_calls rs rn x \<noteq> (None, None)) xs)"
  using assms
proof (induction xs arbitrary: st)
  case Nil
  then show ?case by simp
next
  case (Cons x xs)
  from Cons.prems(1) obtain st1 where s1: "merge_position rs rn s e x st = Inr st1"
    and r: "fold_err (merge_position rs rn s e) xs st1 = Inr st'"
    by (rule fold_err_Cons_Inr)
  from Cons.IH[OF r] merge_position_total_variants_and_adducts[OF s1] show ?case by simp
qed

lemma positions_length_variants:
  assumes "fold_err (merge_position rs rn s e) xs st = Inr st'"
    and "distinct (map fst xs)" and "fst ` set (ms_variants st) \<inter> fst ` set xs = {}"
  shows "length (ms_variants st') =
     length (ms_variants st) + length (filter (\<lambda>x. fst (position_calls rs rn x) \<noteq> None) xs)"
  using assms
proof (induction xs arbitrary: st)
  case Nil
  then show ?case by simp
next
  case (Cons x xs)
  from Cons.prems(1) obtain st1 where s1: "merge_position rs rn s e x st = Inr st1"
    and r: "fold_err (merge_position rs rn s e) xs st1 = Inr st'"
    by (rule fold_err_Cons_Inr)
  from Cons.prems(2) have d: "distinct (map fst xs)" and nx: "fst x \<notin> fst ` set xs" by auto
  from Cons.prems(3) have fresh: "fst x \<notin> fst ` set (ms_variants st)"
    and rest: "fst ` set (ms_variants st) \<inter> fst ` set xs = {}" by auto
  have keys: "fst ` set (ms_variants st1) \<subseteq> insert (fst x) (fst ` set (ms_variants st))"
    using merge_position_variants[OF s1] by (auto simp: dom_update split: option.splits)
  from keys rest nx have disj: "fst ` set (ms_variants st1) \<inter> fst ` set xs = {}"
    by (rule subset_insert_disjoint)
  have len: "length (ms_variants st1) =
     length (ms_variants st) + (if fst (position_calls rs rn x) \<noteq> None then 1 else 0)"
    using merge_position_variants[OF s1] fresh by (auto simp: length_update split: option.splits)
  from Cons.IH[OF r d disj] len show ?case by simp
qed

lemma positions_length_adducts:
  assumes "fold_err (merge_position rs rn s e) xs st = Inr st'"
    and "distinct (map fst xs)" and "fst ` set (ms_adducts st) \<inter> fst ` set xs = {}"
  shows "length (ms_adducts st') =
     length (ms_adducts st) + length (filter (\<lambda>x. snd (position_calls rs rn x) \<noteq> None) xs)"
  using assms
proof (induction xs arbitrary: st)
  case Nil
  then show ?case by simp
next
  case (Cons x xs)
  from Cons.prems(1) obtain st1 where s1: "merge_position rs rn s e x st = Inr st1"
    and r: "fold_err (merge_position rs rn s e) xs st1 = Inr st'"
    by (rule fold_err_Cons_Inr)
  from Cons.prems(2) have d: "distinct (map fst xs)" and nx: "fst x \<notin> fst ` set xs" by auto
  from Cons.prems(3) have fresh: "fst x \<notin> fst ` set (ms_adducts st)"
    and rest: "fst ` set (ms_adducts st) \<inter> fst ` set xs = {}" by auto
  have keys: "fst ` set (ms_adducts st1) \<subseteq> insert (fst x) (fst ` set (ms_adducts st))"
    using merge_position_adducts[OF s1] by (auto simp: dom_update split: option.splits)
  from keys rest nx have disj: "fst ` set (ms_adducts st1) \<inter> fst ` set xs = {}"
    by (rule subset_insert_disjoint)
  have len: "length (ms_adducts st1) =
     length (ms_adducts st) + (if snd (position_calls rs rn x) \<noteq> None then 1 else 0)"
    using merge_position_adducts[OF s1] fresh by (auto simp: length_update split: option.splits)
  from Cons.IH[OF r d disj] len show ?case by simp
qed

lemma positions_cons_length:
  assumes "fold_err (merge_position rs rn s e) xs st = Inr st'"
  shows "length (ms_cons_list st') = length (ms_cons_list st) + length xs"
  using assms
proof (induction xs arbitrary: st)
  case Nil
  then show ?case by simp
next
  case (Cons x xs)
  from Cons.prems(1) obtain st1 where s1: "merge_position rs rn s e x st = Inr st1"
    and r: "fold_err (merge_position rs rn s e) xs st1 = Inr st'"
    by (rule fold_err_Cons_Inr)
  from Cons.IH[OF r] merge_position_cons[OF s1] show ?case by simp
qed

lemma distinct_zip_upto: "distinct (map fst (zip [a..b] ys))"
  by (simp add: map_fst_zip_take)

section \<open>One family: \<open>merge_strands\<close>\<close>

lemma merge_strands_Inr:
  assumes "merge_strands rs fs bp = Inr (d, bp')"
  obtains ps ns pe ne pc nc st where
    "ssc_start (fs_pos fs) = Some ps" and "ssc_start (fs_neg fs) = Some ns"
    and "ssc_end (fs_pos fs) = Some pe" and "ssc_end (fs_neg fs) = Some ne"
    and "ds_start d = max ps ns" and "ds_end d = min pe ne"
    and "ds_ref_name d = ssc_ref_name (fs_pos fs)"
    and "trim_cons (ds_start d) (ds_end d) (fs_pos fs) = Inr pc"
    and "trim_cons (ds_start d) (ds_end d) (fs_neg fs) = Inr nc"
    and "fold_err (merge_position rs (ds_ref_name d) (ds_start d) (ds_end d))
           (zip [ds_start d..ds_end d] (zip pc nc)) (init_merge_state bp) = Inr st"
    and "ds_variants d = ms_variants st" and "ds_adducts d = ms_adducts st"
    and "ds_total_variants d = ms_total_variants st"
    and "ds_total_variants_and_adducts d = ms_total_variants_and_adducts st"
    and "ds_cons d = ms_cons_list st"
  using assms unfolding merge_strands_def py_max_def py_min_def
  by (auto simp: Let_def split: sum.splits option.splits prod.splits)

lemma trim_cons_error: "trim_cons s e sc = Inl err \<Longrightarrow> err = TypeError"
  unfolding trim_cons_def by (auto split: option.splits)

lemma merge_strands_error:
  assumes "merge_strands rs fs bp = Inl err"
  shows "err = TypeError \<or> (\<exists>rn s e x st. merge_position rs rn s e x st = Inl err)"
proof -
  have "err = TypeError
      \<or> (\<exists>rn s e xs st0. fold_err (merge_position rs rn s e) xs st0 = Inl err)"
    using assms unfolding merge_strands_def py_max_def py_min_def
    by (auto simp: Let_def dest: trim_cons_error split: sum.splits option.splits prod.splits)
  then show ?thesis
    by (metis fold_err_Inl)
qed

lemma init_merge_state_maps [simp]:
  "ms_variants (init_merge_state bp) = []" "ms_adducts (init_merge_state bp) = []"
  "ms_total_variants (init_merge_state bp) = 0"
  "ms_total_variants_and_adducts (init_merge_state bp) = 0"
  "ms_cons_list (init_merge_state bp) = []"
  by (simp_all add: init_merge_state_def)

lemma family_calls:
  assumes m: "merge_strands rs fs bp = Inr (d, bp')"
    and x: "x \<in> set (zip [ds_start d..ds_end d] (zip pc nc))"
    and pc: "trim_cons (ds_start d) (ds_end d) (fs_pos fs) = Inr pc"
    and nc: "trim_cons (ds_start d) (ds_end d) (fs_neg fs) = Inr nc"
  shows "map_of (ds_variants d) (fst x) = fst (position_calls rs (ds_ref_name d) x)
       \<and> map_of (ds_adducts d) (fst x) = snd (position_calls rs (ds_ref_name d) x)"
proof -
  from m obtain pc' nc' st where
    pc': "trim_cons (ds_start d) (ds_end d) (fs_pos fs) = Inr pc'"
    and nc': "trim_cons (ds_start d) (ds_end d) (fs_neg fs) = Inr nc'"
    and f: "fold_err (merge_position rs (ds_ref_name d) (ds_start d) (ds_end d))
           (zip [ds_start d..ds_end d] (zip pc' nc')) (init_merge_state bp) = Inr st"
    and v: "ds_variants d = ms_variants st" and a: "ds_adducts d = ms_adducts st"
    by (rule merge_strands_Inr)
  from pc pc' nc nc' have e: "pc' = pc" "nc' = nc" by simp_all
  from positions_at[OF f[unfolded e] distinct_zip_upto x] v a show ?thesis by simp
qed

lemma family_frame:
  assumes m: "merge_strands rs fs bp = Inr (d, bp')"
    and pc: "trim_cons (ds_start d) (ds_end d) (fs_pos fs) = Inr pc"
    and nc: "trim_cons (ds_start d) (ds_end d) (fs_neg fs) = Inr nc"
    and q: "q \<notin> fst ` set (zip [ds_start d..ds_end d] (zip pc nc))"
  shows "map_of (ds_variants d) q = None \<and> map_of (ds_adducts d) q = None"
proof -
  from m obtain pc' nc' st where
    pc': "trim_cons (ds_start d) (ds_end d) (fs_pos fs) = Inr pc'"
    and nc': "trim_cons (ds_start d) (ds_end d) (fs_neg fs) = Inr nc'"
    and f: "fold_err (merge_position rs (ds_ref_name d) (ds_start d) (ds_end d))
           (zip [ds_start d..ds_end d] (zip pc' nc')) (init_merge_state bp) = Inr st"
    and v: "ds_variants d = ms_variants st" and a: "ds_adducts d = ms_adducts st"
    by (rule merge_strands_Inr)
  from pc pc' nc nc' have e: "pc' = pc" "nc' = nc" by simp_all
  from positions_frame[OF f[unfolded e] q] v a show ?thesis by simp
qed

lemma zip_position:
  assumes "i < length pc" and "i < length nc" and "s + int i \<le> e"
  shows "(s + int i, pc ! i, nc ! i) \<in> set (zip [s..e] (zip pc nc))"
proof -
  from assms(3) have "i < length [s..e]" by simp
  with assms have "i < length (zip [s..e] (zip pc nc))" by simp
  then have "zip [s..e] (zip pc nc) ! i \<in> set (zip [s..e] (zip pc nc))" by (rule nth_mem)
  moreover have "zip [s..e] (zip pc nc) ! i = (s + int i, pc ! i, nc ! i)"
    using assms \<open>i < length [s..e]\<close> by simp
  ultimately show ?thesis by simp
qed

lemma family_table:
  assumes m: "merge_strands rs fs bp = Inr (d, bp')"
    and pc: "trim_cons (ds_start d) (ds_end d) (fs_pos fs) = Inr pc"
    and nc: "trim_cons (ds_start d) (ds_end d) (fs_neg fs) = Inr nc"
    and i: "i < length pc" "i < length nc" "ds_start d + int i \<le> ds_end d"
    and R: "refseq_at rs (ds_ref_name d) (ds_start d + int i) = Inr R"
    and ok: "pc ! i \<in> allowed_nucs" "nc ! i \<in> allowed_nucs" "R \<in> allowed_nucs"
  shows "(map_of (ds_variants d) (ds_start d + int i), map_of (ds_adducts d) (ds_start d + int i))
       = spec_table (pc ! i) (nc ! i) R"
proof -
  let ?x = "(ds_start d + int i, pc ! i, nc ! i)"
  have "?x \<in> set (zip [ds_start d..ds_end d] (zip pc nc))" using i by (rule zip_position)
  from family_calls[OF m this pc nc]
  have "(map_of (ds_variants d) (fst ?x), map_of (ds_adducts d) (fst ?x))
      = position_calls rs (ds_ref_name d) ?x" by simp
  also have "\<dots> = spec_table (pc ! i) (nc ! i) R"
    using R ok by (simp add: position_calls_def)
  finally show ?thesis by simp
qed

section \<open>From the pipeline to one family\<close>

text \<open>
  Every entry of the final duplex map comes from one call of \<open>merge_strands\<close> on the
  entry of the same family in the strand map, and both strands of that entry were filled
  by \<open>merge_read_pair\<close>.
\<close>

lemma fold_err_invariant:
  assumes "fold_err f xs s = Inr s'" and "P s"
    and "\<And>x s s1. x \<in> set xs \<Longrightarrow> P s \<Longrightarrow> f x s = Inr s1 \<Longrightarrow> P s1"
  shows "P s'"
  using assms
proof (induction xs arbitrary: s)
  case Nil
  then show ?case by simp
next
  case (Cons x xs)
  from Cons.prems(1) obtain s1 where s1: "f x s = Inr s1" and r: "fold_err f xs s1 = Inr s'"
    by (rule fold_err_Cons_Inr)
  have "P s1" using Cons.prems(2) s1 by (auto intro: Cons.prems(3))
  with r show ?case by (rule Cons.IH) (auto intro: Cons.prems(3))
qed

lemma set_update_subset: "set (AList.update k v al) \<subseteq> insert (k, v) (set al)"
  by (induct al) auto

lemma length_build_cons:
  "length (build_cons rs ref_name variants covered s e) = nat (e - s + 1)"
  by (simp add: build_cons_def)

lemma merged_strand_new:
  "s < e \<Longrightarrow>
   merged_strand \<lparr>ssc_ref_name = r, ssc_start = Some s, ssc_end = Some e,
                   ssc_cons = Some (build_cons rs n v cov s e), ssc_variants = v\<rparr>"
  by (simp add: merged_strand_def length_build_cons)

lemma merge_read_pair_cases:
  assumes "merge_read_pair rs fid strand sr st = Inr st'"
  shows "fst st' = fst st
       \<or> (\<exists>sc. merged_strand sc
              \<and> fst st' = AList.update fid (set_strand strand sc (ssc_family (fst st) fid)) (fst st))"
proof -
  have "fst st' = fst st
      \<or> (\<exists>r s e n v cov. s < e \<and> fst st' = AList.update fid
            (set_strand strand
               \<lparr>ssc_ref_name = r, ssc_start = Some s, ssc_end = Some e,
                ssc_cons = Some (build_cons rs n v cov s e), ssc_variants = v\<rparr>
               (ssc_family (fst st) fid)) (fst st))"
    using assms unfolding merge_read_pair_def dropped_def
    by (fastforce simp: Let_def not_le split: if_splits option.splits sum.splits prod.splits)
  then show ?thesis
    using merged_strand_new by blast
qed

lemma strand_ok_default: "strand_ok default_strand_consensus"
  by (simp add: strand_ok_def default_strand_consensus_def)

lemma ssc_ok_entry:
  assumes "ssc_ok ssc" and "(fid, fs) \<in> set ssc"
  shows "strand_ok (fs_pos fs) \<and> strand_ok (fs_neg fs)"
  using assms by (auto simp: ssc_ok_def list_all_iff)

lemma ssc_ok_family:
  assumes "ssc_ok ssc"
  shows "strand_ok (fs_pos (ssc_family ssc fid)) \<and> strand_ok (fs_neg (ssc_family ssc fid))"
proof (cases "map_of ssc fid")
  case None
  then show ?thesis
    by (simp add: ssc_family_def default_family_strands_def strand_ok_default)
next
  case (Some fs)
  then have "(fid, fs) \<in> set ssc" by (rule map_of_SomeD)
  with assms have "strand_ok (fs_pos fs) \<and> strand_ok (fs_neg fs)" by (rule ssc_ok_entry)
  with Some show ?thesis by (simp add: ssc_family_def)
qed

lemma ssc_ok_update:
  assumes ok: "ssc_ok ssc" and m: "merged_strand sc"
  shows "ssc_ok (AList.update fid (set_strand strand sc (ssc_family ssc fid)) ssc)"
proof -
  let ?fs = "set_strand strand sc (ssc_family ssc fid)"
  have new: "strand_ok (fs_pos ?fs) \<and> strand_ok (fs_neg ?fs)"
    using ssc_ok_family[OF ok, of fid] m
    by (cases strand) (simp_all add: set_strand_def strand_ok_def)
  have "distinct (map fst (AList.update fid ?fs ssc))"
    using ok by (simp add: ssc_ok_def distinct_update)
  moreover have "strand_ok (fs_pos fs) \<and> strand_ok (fs_neg fs)"
    if "(f, fs) \<in> set (AList.update fid ?fs ssc)" for f fs
  proof -
    from that set_update_subset[of fid ?fs ssc] have "(f, fs) = (fid, ?fs) \<or> (f, fs) \<in> set ssc"
      by auto
    then show ?thesis using new ssc_ok_entry[OF ok] by auto
  qed
  ultimately show ?thesis by (auto simp: ssc_ok_def list_all_iff)
qed

lemma merge_read_pair_ok:
  assumes "merge_read_pair rs fid strand sr st = Inr st'" and "ssc_ok (fst st)"
  shows "ssc_ok (fst st')"
  using merge_read_pair_cases[OF assms(1)] assms(2) by (auto intro: ssc_ok_update)

lemma merge_fwd_rev_per_strand_ok:
  assumes "merge_fwd_rev_per_strand rs ri = Inr (ssc, log)"
  shows "ssc_ok ssc"
proof -
  let ?inner = "\<lambda>family_id. (\<lambda>(strand, strand_reads). merge_read_pair rs family_id strand strand_reads)"
  have inner: "ssc_ok (fst s1)"
    if "fold_err (?inner fid) fr s = Inr s1" and "ssc_ok (fst s)" for fid fr s s1
    using that
    by (rule fold_err_invariant[where P = "\<lambda>s. ssc_ok (fst s)"])
       (auto intro: merge_read_pair_ok)
  have "ssc_ok (fst (ssc, log))"
    using assms[unfolded merge_fwd_rev_per_strand_def]
  proof (rule fold_err_invariant[where P = "\<lambda>s. ssc_ok (fst s)"])
    show "ssc_ok (fst ([], []))" by (simp add: ssc_ok_def)
  next
    fix x s s1
    assume "ssc_ok (fst s)"
      and "(case x of (family_id, family_reads) \<Rightarrow> fold_err (?inner family_id) family_reads) s = Inr s1"
    then show "ssc_ok (fst s1)" by (cases x) (auto intro: inner)
  qed
  then show ?thesis by simp
qed

lemma merge_pos_neg_entry:
  assumes "fold_err (\<lambda>(family_id, family_strands) st.
        case merge_strands rs family_strands (snd st) of
          Inl e \<Rightarrow> Inl e
        | Inr (dsc, bp) \<Rightarrow> Inr (AList.update family_id dsc (fst st), bp)) xs st = Inr st'"
    and "map_of (fst st') fid = Some d"
  shows "map_of (fst st) fid = Some d
       \<or> (\<exists>fs bp bp'. (fid, fs) \<in> set xs \<and> merge_strands rs fs bp = Inr (d, bp'))"
  using assms
proof (induction xs arbitrary: st)
  case Nil
  then show ?case by simp
next
  case (Cons x xs)
  obtain f fs where x: "x = (f, fs)" by (cases x)
  from Cons.prems(1) obtain st1 where
    s1: "(case merge_strands rs fs (snd st) of
            Inl e \<Rightarrow> Inl e
          | Inr (dsc, bp) \<Rightarrow> Inr (AList.update f dsc (fst st), bp)) = Inr st1"
    and r: "fold_err (\<lambda>(family_id, family_strands) st.
        case merge_strands rs family_strands (snd st) of
          Inl e \<Rightarrow> Inl e
        | Inr (dsc, bp) \<Rightarrow> Inr (AList.update family_id dsc (fst st), bp)) xs st1 = Inr st'"
    unfolding x by (auto split: sum.splits)
  from s1 obtain d1 bp1 where m: "merge_strands rs fs (snd st) = Inr (d1, bp1)"
    and st1: "fst st1 = AList.update f d1 (fst st)"
    by (auto split: sum.splits prod.splits)
  from Cons.IH[OF r Cons.prems(2)] show ?case
  proof
    assume "map_of (fst st1) fid = Some d"
    then have "(fid = f \<and> d = d1) \<or> map_of (fst st) fid = Some d"
      unfolding st1 by (auto simp: update_conv' split: if_splits)
    with m x show ?thesis by auto
  next
    assume "\<exists>fs bp bp'. (fid, fs) \<in> set xs \<and> merge_strands rs fs bp = Inr (d, bp')"
    then show ?thesis by auto
  qed
qed

lemma merge_strands_merged:
  assumes "merge_strands rs fs bp = Inr (d, bp')" and "strand_ok (fs_pos fs)" and "strand_ok (fs_neg fs)"
  shows "merged_strand (fs_pos fs) \<and> merged_strand (fs_neg fs)"
proof -
  from assms(1) obtain ps ns where "ssc_start (fs_pos fs) = Some ps" and "ssc_start (fs_neg fs) = Some ns"
    by (rule merge_strands_Inr)
  with assms(2,3) show ?thesis by (simp add: strand_ok_def)
qed

lemma pipeline_family:
  assumes run: "ParseSSC pos_bam neg_bam = Inr p" and d: "map_of (p_dsc_info p) fid = Some d"
  obtains fs bp bp' where "map_of (p_ssc_info p) fid = Some fs"
    and "merge_strands (p_refseq p) fs bp = Inr (d, bp')"
    and "merged_strand (fs_pos fs)" and "merged_strand (fs_neg fs)"
proof -
  from run obtain ri log bp1 where
    fr: "merge_fwd_rev_per_strand (p_refseq p) ri = Inr (p_ssc_info p, log)"
    and pn: "merge_pos_neg_strands (p_refseq p) (p_ssc_info p) = Inr (p_dsc_info p, bp1)"
    unfolding ParseSSC_def by (auto split: sum.splits prod.splits)
  from fr have ok: "ssc_ok (p_ssc_info p)" by (rule merge_fwd_rev_per_strand_ok)
  from merge_pos_neg_entry[OF pn[unfolded merge_pos_neg_strands_def] _, of fid d] d
  have "\<exists>fs bp bp'. (fid, fs) \<in> set (p_ssc_info p)
          \<and> merge_strands (p_refseq p) fs bp = Inr (d, bp')"
    by simp
  then obtain fs bp bp' where mem: "(fid, fs) \<in> set (p_ssc_info p)"
    and m: "merge_strands (p_refseq p) fs bp = Inr (d, bp')"
    by blast
  from ok have "distinct (map fst (p_ssc_info p))" by (simp add: ssc_ok_def)
  with mem have look: "map_of (p_ssc_info p) fid = Some fs" by simp
  from ssc_ok_entry[OF ok mem] have "strand_ok (fs_pos fs)" and "strand_ok (fs_neg fs)"
    by simp_all
  with m have "merged_strand (fs_pos fs) \<and> merged_strand (fs_neg fs)"
    by (rule merge_strands_merged)
  with look m show ?thesis by (auto intro: that)
qed

section \<open>Counters and entries of a family\<close>

lemma calls_variant_case:
  "fst (position_calls rs rn x) \<noteq> None
     \<longleftrightarrow> position_case rs rn x = 4 \<or> position_case rs rn x = 5"
  unfolding position_calls_def position_case_def spec_table_def
  by (auto split: prod.splits sum.splits)

lemma calls_adduct_case:
  "snd (position_calls rs rn x) \<noteq> None
     \<longleftrightarrow> position_case rs rn x = 5 \<or> position_case rs rn x = 6 \<or> position_case rs rn x = 7"
  unfolding position_calls_def position_case_def spec_table_def
  by (auto split: prod.splits sum.splits)

lemma calls_any_case:
  "position_calls rs rn x \<noteq> (None, None)
     \<longleftrightarrow> position_case rs rn x = 4 \<or> position_case rs rn x = 5
        \<or> position_case rs rn x = 6 \<or> position_case rs rn x = 7"
  unfolding position_calls_def position_case_def spec_table_def
  by (auto split: prod.splits sum.splits)

lemma length_filter_or:
  assumes "a \<noteq> b"
  shows "length (filter (\<lambda>x. f x = a \<or> f x = b) xs)
       = length (filter (\<lambda>x. f x = a) xs) + length (filter (\<lambda>x. f x = b) xs)"
  using assms by (induction xs) auto

lemma length_filter_or3:
  assumes "a \<noteq> b" and "a \<noteq> c" and "b \<noteq> c"
  shows "length (filter (\<lambda>x. f x = a \<or> f x = b \<or> f x = c) xs)
       = length (filter (\<lambda>x. f x = a) xs) + length (filter (\<lambda>x. f x = b) xs)
         + length (filter (\<lambda>x. f x = c) xs)"
  using assms by (induction xs) auto

lemma length_filter_or4:
  assumes "distinct [a, b, c, d]"
  shows "length (filter (\<lambda>x. f x = a \<or> f x = b \<or> f x = c \<or> f x = d) xs)
       = length (filter (\<lambda>x. f x = a) xs) + length (filter (\<lambda>x. f x = b) xs)
         + length (filter (\<lambda>x. f x = c) xs) + length (filter (\<lambda>x. f x = d) xs)"
  using assms by (induction xs) auto

lemma family_counters:
  assumes m: "merge_strands rs fs bp = Inr (d, bp')"
    and pc: "trim_cons (ds_start d) (ds_end d) (fs_pos fs) = Inr pc"
    and nc: "trim_cons (ds_start d) (ds_end d) (fs_neg fs) = Inr nc"
  defines "xs \<equiv> zip [ds_start d..ds_end d] (zip pc nc)"
  shows "ds_total_variants d = count_case rs (ds_ref_name d) xs 4 + count_case rs (ds_ref_name d) xs 5"
    and "length (ds_variants d) = count_case rs (ds_ref_name d) xs 4 + count_case rs (ds_ref_name d) xs 5"
    and "length (ds_adducts d) = count_case rs (ds_ref_name d) xs 5
           + count_case rs (ds_ref_name d) xs 6 + count_case rs (ds_ref_name d) xs 7"
    and "ds_total_variants_and_adducts d = count_case rs (ds_ref_name d) xs 4
           + count_case rs (ds_ref_name d) xs 5 + count_case rs (ds_ref_name d) xs 6
           + count_case rs (ds_ref_name d) xs 7"
proof -
  from m obtain pc' nc' st where
    pc': "trim_cons (ds_start d) (ds_end d) (fs_pos fs) = Inr pc'"
    and nc': "trim_cons (ds_start d) (ds_end d) (fs_neg fs) = Inr nc'"
    and f: "fold_err (merge_position rs (ds_ref_name d) (ds_start d) (ds_end d))
           (zip [ds_start d..ds_end d] (zip pc' nc')) (init_merge_state bp) = Inr st"
    and v: "ds_variants d = ms_variants st" and a: "ds_adducts d = ms_adducts st"
    and tv: "ds_total_variants d = ms_total_variants st"
    and tva: "ds_total_variants_and_adducts d = ms_total_variants_and_adducts st"
    by (rule merge_strands_Inr)
  from pc pc' nc nc' have e: "pc' = pc" "nc' = nc" by simp_all
  have f': "fold_err (merge_position rs (ds_ref_name d) (ds_start d) (ds_end d)) xs
              (init_merge_state bp) = Inr st"
    using f e by (simp add: xs_def)
  have dx: "distinct (map fst xs)" unfolding xs_def by (rule distinct_zip_upto)
  show "ds_total_variants d = count_case rs (ds_ref_name d) xs 4 + count_case rs (ds_ref_name d) xs 5"
    using positions_total_variants[OF f', unfolded calls_variant_case] tv
    by (simp add: count_case_def length_filter_or)
  show "length (ds_variants d) = count_case rs (ds_ref_name d) xs 4 + count_case rs (ds_ref_name d) xs 5"
    using positions_length_variants[OF f' dx, unfolded calls_variant_case] v
    by (simp add: count_case_def length_filter_or)
  show "length (ds_adducts d) = count_case rs (ds_ref_name d) xs 5
           + count_case rs (ds_ref_name d) xs 6 + count_case rs (ds_ref_name d) xs 7"
    using positions_length_adducts[OF f' dx, unfolded calls_adduct_case] a
    by (simp add: count_case_def length_filter_or3)
  show "ds_total_variants_and_adducts d = count_case rs (ds_ref_name d) xs 4
           + count_case rs (ds_ref_name d) xs 5 + count_case rs (ds_ref_name d) xs 6
           + count_case rs (ds_ref_name d) xs 7"
    using positions_total_variants_and_adducts[OF f', unfolded calls_any_case] tva
    by (simp add: count_case_def length_filter_or4)
qed

lemma calls_variant:
  assumes "fst (position_calls rs rn (q, P, N)) = Some v"
  shows "P \<in> allowed_nucs \<and> N \<in> allowed_nucs \<and> v_ref v \<in> allowed_nucs
       \<and> refseq_at rs rn q = Inr (v_ref v) \<and> v_var v = P \<and> P \<noteq> v_ref v \<and> N \<noteq> v_ref v
       \<and> snd (position_calls rs rn (q, P, N))
           = (if P = N then None
              else Some \<lparr>a_strand = Neg, a_var = spec_complement N,
                          a_ref = spec_complement (v_ref v)\<rparr>)"
  using assms unfolding position_calls_def spec_table_def
  by (auto split: sum.splits if_splits)

lemma calls_adduct:
  assumes "snd (position_calls rs rn (q, P, N)) = Some a"
  shows "\<exists>R. P \<in> allowed_nucs \<and> N \<in> allowed_nucs \<and> R \<in> allowed_nucs
       \<and> refseq_at rs rn q = Inr R
       \<and> (a = \<lparr>a_strand = Pos, a_var = P, a_ref = R\<rparr> \<and> P \<noteq> R \<and> N = R
          \<or> a = \<lparr>a_strand = Neg, a_var = spec_complement N, a_ref = spec_complement R\<rparr>
            \<and> N \<noteq> R \<and> P \<noteq> N)"
  using assms unfolding position_calls_def spec_table_def
  by (auto split: sum.splits if_splits)

lemma family_entry:
  assumes m: "merge_strands rs fs bp = Inr (d, bp')"
    and q: "map_of (ds_variants d) q \<noteq> None \<or> map_of (ds_adducts d) q \<noteq> None"
  shows "\<exists>P N. map_of (ds_variants d) q = fst (position_calls rs (ds_ref_name d) (q, P, N))
       \<and> map_of (ds_adducts d) q = snd (position_calls rs (ds_ref_name d) (q, P, N))
       \<and> ds_start d \<le> q \<and> q \<le> ds_end d"
proof -
  from m obtain pc nc where
    pc: "trim_cons (ds_start d) (ds_end d) (fs_pos fs) = Inr pc"
    and nc: "trim_cons (ds_start d) (ds_end d) (fs_neg fs) = Inr nc"
    by (rule merge_strands_Inr)
  let ?xs = "zip [ds_start d..ds_end d] (zip pc nc)"
  have "q \<in> fst ` set ?xs"
  proof (rule ccontr)
    assume "q \<notin> fst ` set ?xs"
    from family_frame[OF m pc nc this] q show False by simp
  qed
  then obtain x where x: "x \<in> set ?xs" and fx: "fst x = q" by (rule imageE) simp
  obtain P N where xe: "x = (q, P, N)" using fx by (cases x) auto
  from x have "fst x \<in> set [ds_start d..ds_end d]"
    unfolding xe by (auto dest: set_zip_leftD)
  with fx have range: "ds_start d \<le> q \<and> q \<le> ds_end d" by simp
  from family_calls[OF m x pc nc] range show ?thesis unfolding xe by auto
qed

section \<open>Span, trimming and the variants of a strand\<close>

lemma trim_same_start:
  assumes "ssc_start sc = Some s" and "ssc_end sc = Some e" and "ssc_cons sc = Some c"
    and "length c = nat (e - s + 1)" and "s < end_pos" and "end_pos \<le> e"
  shows "trim_cons s end_pos sc = Inr (map upper (take (nat (end_pos - s + 1)) c))"
proof -
  have len: "int (length c) = e - s + 1" using assms(4,5,6) by simp
  have lo: "slice_bound (length c) 0 = 0" by (simp add: slice_bound_def)
  have "int (length c) - (e - end_pos) = end_pos - s + 1" using len by simp
  moreover have "nat (end_pos - s + 1) \<le> length c" using assms(4,5,6) by simp
  ultimately have hi: "slice_bound (length c) (int (length c) - (e - end_pos)) = nat (end_pos - s + 1)"
    using assms(5) by (simp add: slice_bound_def)
  show ?thesis
    using assms(1,2,3) by (simp add: trim_cons_def py_slice_def Let_def lo hi)
qed

lemma family_span:
  assumes m: "merge_strands rs fs bp = Inr (d, bp')"
    and mp: "merged_strand (fs_pos fs)" and mn: "merged_strand (fs_neg fs)"
    and ps: "ssc_start (fs_pos fs) = Some ps" and ns: "ssc_start (fs_neg fs) = Some ns"
    and pe: "ssc_end (fs_pos fs) = Some pe" and ne: "ssc_end (fs_neg fs) = Some ne"
    and pcs: "ssc_cons (fs_pos fs) = Some pcons" and ncs: "ssc_cons (fs_neg fs) = Some ncons"
  shows "ds_start d = max ps ns" and "ds_end d = min pe ne"
    and "ds_end d < ds_start d \<Longrightarrow> ds_cons d = []"
    and "ps = ns \<Longrightarrow> ds_start d < ds_end d"
    and "ps = ns \<Longrightarrow> length (ds_cons d) = nat (ds_end d - ds_start d + 1)"
    and "ps = ns \<Longrightarrow> trim_cons (ds_start d) (ds_end d) (fs_pos fs)
            = Inr (map upper (take (nat (ds_end d - ds_start d + 1)) pcons))"
    and "ps = ns \<Longrightarrow> trim_cons (ds_start d) (ds_end d) (fs_neg fs)
            = Inr (map upper (take (nat (ds_end d - ds_start d + 1)) ncons))"
proof -
  from m obtain ps' ns' pe' ne' pc nc st where
    "ssc_start (fs_pos fs) = Some ps'" and "ssc_start (fs_neg fs) = Some ns'"
    and "ssc_end (fs_pos fs) = Some pe'" and "ssc_end (fs_neg fs) = Some ne'"
    and "ds_start d = max ps' ns'" and "ds_end d = min pe' ne'"
    and pc: "trim_cons (ds_start d) (ds_end d) (fs_pos fs) = Inr pc"
    and nc: "trim_cons (ds_start d) (ds_end d) (fs_neg fs) = Inr nc"
    and f: "fold_err (merge_position rs (ds_ref_name d) (ds_start d) (ds_end d))
           (zip [ds_start d..ds_end d] (zip pc nc)) (init_merge_state bp) = Inr st"
    and c: "ds_cons d = ms_cons_list st"
    by (rule merge_strands_Inr)
  with ps ns pe ne show s: "ds_start d = max ps ns" and e: "ds_end d = min pe ne" by simp_all
  from positions_cons_length[OF f] c
  have len: "length (ds_cons d) = length (zip [ds_start d..ds_end d] (zip pc nc))" by simp
  show "ds_cons d = []" if "ds_end d < ds_start d"
    using len that by simp
  from mp ps pe pcs have pl: "ps < pe" "length pcons = nat (pe - ps + 1)"
    by (simp_all add: merged_strand_def)
  from mn ns ne ncs have nl: "ns < ne" "length ncons = nat (ne - ns + 1)"
    by (simp_all add: merged_strand_def)
  show lt: "ds_start d < ds_end d" if "ps = ns"
    using that s e pl nl by simp
  have tp: "trim_cons (ds_start d) (ds_end d) (fs_pos fs)
            = Inr (map upper (take (nat (ds_end d - ds_start d + 1)) pcons))" if "ps = ns"
  proof -
    have "ds_start d = ps" using that s by simp
    moreover have "ps < ds_end d" "ds_end d \<le> pe" using that e pl nl by simp_all
    ultimately show ?thesis using trim_same_start[OF ps pe pcs pl(2)] by simp
  qed
  have tn: "trim_cons (ds_start d) (ds_end d) (fs_neg fs)
            = Inr (map upper (take (nat (ds_end d - ds_start d + 1)) ncons))" if "ps = ns"
  proof -
    have "ds_start d = ns" using that s by simp
    moreover have "ns < ds_end d" "ds_end d \<le> ne" using that e pl nl by simp_all
    ultimately show ?thesis using trim_same_start[OF ns ne ncs nl(2)] by simp
  qed
  show "trim_cons (ds_start d) (ds_end d) (fs_pos fs)
            = Inr (map upper (take (nat (ds_end d - ds_start d + 1)) pcons))" if "ps = ns"
    using that by (rule tp)
  show "trim_cons (ds_start d) (ds_end d) (fs_neg fs)
            = Inr (map upper (take (nat (ds_end d - ds_start d + 1)) ncons))" if "ps = ns"
    using that by (rule tn)
  show "length (ds_cons d) = nat (ds_end d - ds_start d + 1)" if "ps = ns"
  proof -
    from tp[OF that] pc have p: "pc = map upper (take (nat (ds_end d - ds_start d + 1)) pcons)"
      by simp
    from tn[OF that] nc have n: "nc = map upper (take (nat (ds_end d - ds_start d + 1)) ncons)"
      by simp
    have "nat (ds_end d - ds_start d + 1) \<le> length pcons"
      using that s e pl nl by simp
    moreover have "nat (ds_end d - ds_start d + 1) \<le> length ncons"
      using that s e pl nl by simp
    ultimately show ?thesis using len p n by simp
  qed
qed

lemma add_variants_lookup:
  assumes "fold_err (add_variant rs n ori si) items vs = Inr vs'"
    and "distinct (map fst items)"
  shows "map_of vs' q =
     (case map_of items q of
        None \<Rightarrow> map_of vs q
      | Some b \<Rightarrow>
          (case refseq_at rs (Some n) q of
             Inl e \<Rightarrow> None
           | Inr r \<Rightarrow>
               Some \<lparr>sv_readpos = (if ori = Fwd then (q - rd_start si) + 1 else (rd_end si - q) + 1),
                     sv_var = b, sv_ref = r\<rparr>))"
  using assms
proof (induction items arbitrary: vs)
  case Nil
  then show ?case by simp
next
  case (Cons x items)
  obtain k b where x: "x = (k, b)" by (cases x)
  from Cons.prems(1) obtain vs1 where s1: "add_variant rs n ori si x vs = Inr vs1"
    and r: "fold_err (add_variant rs n ori si) items vs1 = Inr vs'"
    by (rule fold_err_Cons_Inr)
  from Cons.prems(2) have d: "distinct (map fst items)" and nk: "k \<notin> fst ` set items"
    unfolding x by auto
  from s1 obtain rb where rb: "refseq_at rs (Some n) k = Inr rb"
    and vs1: "vs1 = AList.update k
        \<lparr>sv_readpos = (if ori = Fwd then (k - rd_start si) + 1 else (rd_end si - k) + 1),
         sv_var = b, sv_ref = rb\<rparr> vs"
    unfolding x add_variant_def by (auto simp: Let_def split: sum.splits)
  note IH = Cons.IH[OF r d]
  show ?case
  proof (cases "q = k")
    case True
    with nk have "map_of items q = None" by (simp add: map_of_eq_None_iff)
    moreover have "map_of vs1 q = Some \<lparr>sv_readpos = (if ori = Fwd then (q - rd_start si) + 1
                                                   else (rd_end si - q) + 1),
                                     sv_var = b, sv_ref = rb\<rparr>"
      unfolding vs1 using True by (simp add: update_conv')
    moreover have "map_of (x # items) q = Some b" using True unfolding x by simp
    ultimately show ?thesis using IH True rb by simp
  next
    case False
    then have e: "map_of vs1 q = map_of vs q" unfolding vs1 by (simp add: update_conv')
    have "map_of (x # items) q = map_of items q" using False unfolding x by simp
    with IH e show ?thesis by (cases "map_of items q") simp_all
  qed
qed

lemma merge_read_pair_variants:
  assumes m: "merge_read_pair rs fid strand [(Fwd, Some fwd_read), (Rev, Some rev_read)] (ssc, log)
                = Inr (ssc', log')"
    and same: "rd_ref_name fwd_read = rd_ref_name rev_read"
    and inward: "rd_start fwd_read < rd_end rev_read"
    and fresh: "ssc_variants (get_strand (ssc_family ssc fid) strand) = []"
    and df: "distinct (map fst (rd_variants fwd_read))"
    and dr: "distinct (map fst (rd_variants rev_read))"
  shows "map_of (ssc_variants (get_strand (ssc_family ssc' fid) strand)) q =
     (case map_of (rd_variants rev_read) q of
        Some b \<Rightarrow>
          (case refseq_at rs (Some (rd_ref_name fwd_read)) q of
             Inl e \<Rightarrow> None
           | Inr r \<Rightarrow> Some \<lparr>sv_readpos = (rd_end rev_read - q) + 1, sv_var = b, sv_ref = r\<rparr>)
      | None \<Rightarrow>
          (case map_of (rd_variants fwd_read) q of
             None \<Rightarrow> None
           | Some b \<Rightarrow>
               (case refseq_at rs (Some (rd_ref_name fwd_read)) q of
                  Inl e \<Rightarrow> None
                | Inr r \<Rightarrow> Some \<lparr>sv_readpos = (q - rd_start fwd_read) + 1, sv_var = b, sv_ref = r\<rparr>)))"
proof -
  let ?n = "rd_ref_name fwd_read"
  from m same inward fresh obtain v1 v2 cov where
    f1: "fold_err (add_variant rs ?n Fwd fwd_read) (rd_variants fwd_read) [] = Inr v1"
    and f2: "fold_err (add_variant rs ?n Rev rev_read) (rd_variants rev_read) v1 = Inr v2"
    and new: "ssc' = AList.update fid
        (set_strand strand
           \<lparr>ssc_ref_name = Some ?n, ssc_start = Some (rd_start fwd_read),
            ssc_end = Some (rd_end rev_read),
            ssc_cons = Some (build_cons rs ?n v2 cov (rd_start fwd_read) (rd_end rev_read)),
            ssc_variants = v2\<rparr> (ssc_family ssc fid)) ssc"
    unfolding merge_read_pair_def add_read_def
    by (auto simp: Let_def not_le split: sum.splits prod.splits option.splits if_splits)
  have "ssc_variants (get_strand (ssc_family ssc' fid) strand) = v2"
    unfolding new by (cases strand) (simp_all add: ssc_family_def update_conv' get_strand_def set_strand_def)
  moreover from add_variants_lookup[OF f2 dr, of q] add_variants_lookup[OF f1 df, of q]
  have "map_of v2 q =
     (case map_of (rd_variants rev_read) q of
        Some b \<Rightarrow>
          (case refseq_at rs (Some ?n) q of
             Inl e \<Rightarrow> None
           | Inr r \<Rightarrow> Some \<lparr>sv_readpos = (rd_end rev_read - q) + 1, sv_var = b, sv_ref = r\<rparr>)
      | None \<Rightarrow>
          (case map_of (rd_variants fwd_read) q of
             None \<Rightarrow> None
           | Some b \<Rightarrow>
               (case refseq_at rs (Some ?n) q of
                  Inl e \<Rightarrow> None
                | Inr r \<Rightarrow> Some \<lparr>sv_readpos = (q - rd_start fwd_read) + 1, sv_var = b, sv_ref = r\<rparr>)))"
    by (simp split: option.splits)
  ultimately show ?thesis by simp
qed

section \<open>Kept families and the summary\<close>

lemma add_variants_refs:
  assumes "fold_err (add_variant rs n ori si) items vs = Inr vs'" and "map_of items q = Some b"
  shows "\<exists>r. refseq_at rs (Some n) q = Inr r"
  using assms
proof (induction items arbitrary: vs)
  case Nil
  then show ?case by simp
next
  case (Cons x items)
  obtain k c where x: "x = (k, c)" by (cases x)
  from Cons.prems(1) obtain vs1 where s1: "add_variant rs n ori si x vs = Inr vs1"
    and r: "fold_err (add_variant rs n ori si) items vs1 = Inr vs'"
    by (rule fold_err_Cons_Inr)
  show ?case
  proof (cases "q = k")
    case True
    from s1 show ?thesis unfolding x add_variant_def True
      by (auto simp: Let_def split: sum.splits)
  next
    case False
    with Cons.prems(2) have "map_of items q = Some b" unfolding x by simp
    with r show ?thesis by (rule Cons.IH)
  qed
qed

lemma merge_read_pair_refs:
  assumes m: "merge_read_pair rs fid strand [(Fwd, Some fwd_read), (Rev, Some rev_read)] (ssc, log)
                = Inr (ssc', log')"
    and same: "rd_ref_name fwd_read = rd_ref_name rev_read"
    and inward: "rd_start fwd_read < rd_end rev_read"
    and q: "map_of (rd_variants fwd_read) q = Some b \<or> map_of (rd_variants rev_read) q = Some b"
  shows "\<exists>r. refseq_at rs (Some (rd_ref_name fwd_read)) q = Inr r"
proof -
  let ?n = "rd_ref_name fwd_read"
  from m same inward obtain v0 v1 v2 where
    f1: "fold_err (add_variant rs ?n Fwd fwd_read) (rd_variants fwd_read) v0 = Inr v1"
    and f2: "fold_err (add_variant rs ?n Rev rev_read) (rd_variants rev_read) v1 = Inr v2"
    unfolding merge_read_pair_def add_read_def
    by (auto simp: Let_def not_le split: sum.splits prod.splits option.splits if_splits)
  from q show ?thesis
  proof
    assume "map_of (rd_variants fwd_read) q = Some b"
    with f1 show ?thesis by (rule add_variants_refs)
  next
    assume "map_of (rd_variants rev_read) q = Some b"
    with f2 show ?thesis by (rule add_variants_refs)
  qed
qed

lemma keep_families_Some:
  "keep_families fo dsc (Some T) = {family_id. \<exists>d. (family_id, d) \<in> set dsc \<and> filter_metric fo d \<le> T}"
proof (rule set_eqI)
  fix f
  have "f \<in> keep_families fo dsc (Some T)
      \<longleftrightarrow> (\<exists>x \<in> set dsc. filter_metric fo (snd x) \<le> T \<and> fst x = f)"
    by (auto simp: keep_families_def split_def)
  also have "\<dots> \<longleftrightarrow> (\<exists>d. (f, d) \<in> set dsc \<and> filter_metric fo d \<le> T)"
    by force
  finally show "f \<in> keep_families fo dsc (Some T)
      \<longleftrightarrow> f \<in> {family_id. \<exists>d. (family_id, d) \<in> set dsc \<and> filter_metric fo d \<le> T}"
    by simp
qed

lemma keep_families_None: "keep_families fo dsc None = fst ` set dsc"
  by (simp add: keep_families_def split_def)

lemma count_of_add_count:
  "count_of (add_count k n d) k' = (if k' = k then count_of d k + n else count_of d k')"
  by (simp add: count_of_def add_count_def update_conv')

lemma counts_of_add_count2:
  "count_of (counts_of (add_count2 c k n d) c') k'
     = (if c' = c \<and> k' = k then count_of (counts_of d c) k + n else count_of (counts_of d c') k')"
  by (simp add: counts_of_def add_count2_def update_conv' count_of_add_count)

lemma count_variant_adducts:
  "total_adducts (count_variant c v s) = total_adducts s"
  "chr_adducts (count_variant c v s) c' = chr_adducts s c'"
  by (simp_all add: total_adducts_def chr_adducts_def count_variant_def
        count_of_add_count counts_of_add_count2)

lemma count_adduct_adducts:
  "total_adducts (count_adduct c a s) = total_adducts s + 1"
  "chr_adducts (count_adduct c a s) c' = chr_adducts s c' + (if c' = c then 1 else 0)"
  by (simp_all add: total_adducts_def chr_adducts_def count_adduct_def
        count_of_add_count counts_of_add_count2)

lemma fold_count_variant_adducts:
  "total_adducts (fold (count_variant c) vs s) = total_adducts s
   \<and> chr_adducts (fold (count_variant c) vs s) c' = chr_adducts s c'"
  by (induction vs arbitrary: s) (simp_all add: count_variant_adducts)

lemma fold_count_adduct_adducts:
  "total_adducts (fold (count_adduct c) as s) = total_adducts s + length as
   \<and> chr_adducts (fold (count_adduct c) as s) c'
       = chr_adducts s c' + (if c' = c then length as else 0)"
  by (induction as arbitrary: s) (simp_all add: count_adduct_adducts)

lemma count_family_adducts:
  "total_adducts (count_family keep (f, d) s)
     = total_adducts s + (if f \<in> keep then 2 * length (ds_adducts d) else 0)"
  "chr_adducts (count_family keep (f, d) s) c
     = chr_adducts s c + (if f \<in> keep \<and> ds_ref_name d = c then 2 * length (ds_adducts d) else 0)"
proof -
  let ?c = "ds_ref_name d"
  let ?n = "length (ds_adducts d)"
  define s3 where "s3 =
    (let s1 = s\<lparr>total_counts := add_count ''ssc'' 1 (total_counts s),
                chr_counts := add_count2 ?c ''families'' 1 (chr_counts s)\<rparr>;
         s2 = s1\<lparr>total_counts := add_count ''bases'' (ds_nbases d) (total_counts s1),
                 chr_counts := add_count2 ?c ''bases'' (ds_nbases d) (chr_counts s1)\<rparr>
     in s2\<lparr>total_counts := add_count ''adducts'' ?n (total_counts s2),
           chr_counts := add_count2 ?c ''adducts'' ?n (chr_counts s2)\<rparr>)"
  have t3: "total_adducts s3 = total_adducts s + ?n"
    by (simp add: s3_def total_adducts_def Let_def count_of_add_count)
  have c3: "chr_adducts s3 c = chr_adducts s c + (if c = ?c then ?n else 0)"
    by (simp add: s3_def chr_adducts_def Let_def counts_of_add_count2)
  have cf: "count_family keep (f, d) s =
      (if f \<notin> keep then s
       else fold (count_adduct ?c) (map snd (ds_adducts d))
              (fold (count_variant ?c) (map snd (ds_variants d)) s3))"
    by (simp add: count_family_def s3_def Let_def)
  show "total_adducts (count_family keep (f, d) s)
     = total_adducts s + (if f \<in> keep then 2 * length (ds_adducts d) else 0)"
    by (simp add: cf fold_count_adduct_adducts fold_count_variant_adducts t3)
  show "chr_adducts (count_family keep (f, d) s) c
     = chr_adducts s c + (if f \<in> keep \<and> ds_ref_name d = c then 2 * length (ds_adducts d) else 0)"
    by (simp add: cf fold_count_adduct_adducts fold_count_variant_adducts c3)
qed

lemma fold_count_family_adducts:
  "total_adducts (fold (count_family keep) dsc s)
     = total_adducts s + 2 * adduct_entries (kept keep dsc)
   \<and> chr_adducts (fold (count_family keep) dsc s) c
     = chr_adducts s c + 2 * adduct_entries (filter (\<lambda>d. ds_ref_name d = c) (kept keep dsc))"
proof (induction dsc arbitrary: s)
  case Nil
  then show ?case by (simp add: kept_def adduct_entries_def)
next
  case (Cons x dsc)
  obtain f d where x: "x = (f, d)" by (cases x)
  show ?case
    unfolding x using Cons.IH[of "count_family keep (f, d) s"]
    by (simp add: count_family_adducts kept_def adduct_entries_def)
qed

lemma empty_summary_adducts:
  "total_adducts empty_summary = 0" "chr_adducts empty_summary c = 0"
  by (simp_all add: total_adducts_def chr_adducts_def empty_summary_def count_of_def counts_of_def)

section \<open>The shape of \<open>read_info\<close>\<close>

text \<open>
  Both orientations are keys of every strand entry of \<open>read_info\<close>, so the first test of
  \<open>merge_read_pair\<close> never holds and its message is never logged.
\<close>

lemma update_keys_present:
  "k \<in> set (map fst al) \<Longrightarrow> map fst (AList.update k v al) = map fst al"
  by (simp add: update_keys)

lemma strand_reads_ok_update:
  assumes "strand_reads_ok sr"
  shows "strand_reads_ok (AList.update orient v sr)"
proof -
  from assms have k: "map fst sr = [Fwd, Rev]" by (simp add: strand_reads_ok_def)
  have "orient \<in> set (map fst sr)" unfolding k by (cases orient) simp_all
  then show ?thesis using k by (simp add: strand_reads_ok_def update_keys_present)
qed

lemma family_reads_ok_default: "family_reads_ok default_family_reads"
  by (simp add: family_reads_ok_def default_family_reads_def strand_reads_ok_def)

lemma family_reads_ok_lookup:
  assumes "family_reads_ok fr"
  shows "\<exists>sr. map_of fr strand = Some sr \<and> strand_reads_ok sr"
proof -
  from assms have k: "map fst fr = [Pos, Neg]"
    and a: "\<forall>x \<in> set fr. strand_reads_ok (snd x)"
    by (simp_all add: family_reads_ok_def list_all_iff)
  have "strand \<in> set (map fst fr)" unfolding k by (cases strand) simp_all
  then have "strand \<in> fst ` set fr" by simp
  then obtain sr where l: "map_of fr strand = Some sr"
    by (cases "map_of fr strand") (simp_all add: map_of_eq_None_iff)
  then have "(strand, sr) \<in> set fr" by (rule map_of_SomeD)
  with a have "strand_reads_ok sr" by force
  with l show ?thesis by simp
qed

lemma family_reads_ok_update:
  assumes "family_reads_ok fr" and "strand_reads_ok sr"
  shows "family_reads_ok (AList.update strand sr fr)"
proof -
  from assms(1) have k: "map fst fr = [Pos, Neg]"
    and a: "\<forall>x \<in> set fr. strand_reads_ok (snd x)"
    by (simp_all add: family_reads_ok_def list_all_iff)
  have "strand \<in> set (map fst fr)" unfolding k by (cases strand) simp_all
  then have "map fst (AList.update strand sr fr) = [Pos, Neg]"
    using k by (simp add: update_keys_present)
  moreover have "strand_reads_ok (snd x)" if "x \<in> set (AList.update strand sr fr)" for x
  proof -
    from that set_update_subset[of strand sr fr] have "x = (strand, sr) \<or> x \<in> set fr" by auto
    with a assms(2) show ?thesis by auto
  qed
  ultimately show ?thesis by (simp add: family_reads_ok_def list_all_iff)
qed

lemma read_info_ok_set_read:
  assumes "read_info_ok ri"
  shows "read_info_ok (set_read family_id strand orient read_stats ri)"
proof -
  define fr where "fr = (case map_of ri family_id of None \<Rightarrow> default_family_reads | Some fr \<Rightarrow> fr)"
  define sr where "sr = (case map_of fr strand of None \<Rightarrow> [] | Some sr \<Rightarrow> sr)"
  from assms have a: "\<forall>x \<in> set ri. family_reads_ok (snd x)"
    by (simp add: read_info_ok_def list_all_iff)
  have fr: "family_reads_ok fr"
  proof (cases "map_of ri family_id")
    case None
    then show ?thesis by (simp add: fr_def family_reads_ok_default)
  next
    case (Some fr')
    then have "(family_id, fr') \<in> set ri" by (rule map_of_SomeD)
    with a have "family_reads_ok fr'" by force
    with Some show ?thesis by (simp add: fr_def)
  qed
  from family_reads_ok_lookup[OF fr, of strand] have "strand_reads_ok sr"
    by (auto simp: sr_def)
  then have "strand_reads_ok (AList.update orient (Some read_stats) sr)"
    by (rule strand_reads_ok_update)
  with fr have new: "family_reads_ok (AList.update strand (AList.update orient (Some read_stats) sr) fr)"
    by (rule family_reads_ok_update)
  have e: "set_read family_id strand orient read_stats ri
      = AList.update family_id (AList.update strand (AList.update orient (Some read_stats) sr) fr) ri"
    by (simp add: set_read_def fr_def sr_def Let_def)
  have "family_reads_ok (snd x)"
    if "x \<in> set (set_read family_id strand orient read_stats ri)" for x
  proof -
    from that set_update_subset[of family_id _ ri]
    have "x = (family_id, AList.update strand (AList.update orient (Some read_stats) sr) fr)
        \<or> x \<in> set ri"
      unfolding e by auto
    with a new show ?thesis by auto
  qed
  then show ?thesis by (simp add: read_info_ok_def list_all_iff)
qed

lemma parse_bam_ok:
  assumes "parse_bam bam strand st = Inr st'" and "read_info_ok (snd st)"
  shows "read_info_ok (snd st')"
  using assms unfolding parse_bam_def
  by (rule fold_err_invariant[where P = "\<lambda>s. read_info_ok (snd s)"])
     (auto intro: read_info_ok_set_read split: sum.splits prod.splits)

lemma merge_read_pair_log:
  assumes "merge_read_pair rs fid strand sr st = Inr st'" and "strand_reads_ok sr"
    and "No_forward_and_reverse \<notin> set (snd st)"
  shows "No_forward_and_reverse \<notin> set (snd st')"
proof -
  from assms(2) have k: "map fst sr = [Fwd, Rev]" by (simp add: strand_reads_ok_def)
  have "Fwd \<in> set (map fst sr)" "Rev \<in> set (map fst sr)" unfolding k by simp_all
  then have "Fwd \<in> fst ` set sr" "Rev \<in> fst ` set sr" by simp_all
  then have p: "map_of sr Fwd \<noteq> None" "map_of sr Rev \<noteq> None"
    by (simp_all add: map_of_eq_None_iff)
  from assms(1,3) p show ?thesis
    unfolding merge_read_pair_def dropped_def
    by (auto simp: Let_def split: if_splits option.splits sum.splits prod.splits)
qed

lemma missing_read_test_never_holds:
  assumes "merged_strands pos_bam neg_bam = Inr (ssc, log)"
  shows "No_forward_and_reverse \<notin> set log"
proof -
  from assms obtain st1 rs ri where p1: "parse_bam pos_bam Pos ([], []) = Inr st1"
    and p2: "parse_bam neg_bam Neg st1 = Inr (rs, ri)"
    and m: "merge_fwd_rev_per_strand rs ri = Inr (ssc, log)"
    unfolding merged_strands_def by (auto split: sum.splits prod.splits)
  have "read_info_ok (snd ([] :: refseq, [] :: read_info))" by (simp add: read_info_ok_def)
  with p1 have "read_info_ok (snd st1)" by (rule parse_bam_ok)
  with p2 have "read_info_ok (snd (rs, ri))" by (rule parse_bam_ok)
  then have ri: "\<forall>x \<in> set ri. family_reads_ok (snd x)"
    by (simp add: read_info_ok_def list_all_iff)
  let ?P = "\<lambda>s :: ssc_info \<times> log_entry list. No_forward_and_reverse \<notin> set (snd s)"
  have inner: "?P s1"
    if "fold_err (\<lambda>(strand, strand_reads). merge_read_pair rs fid strand strand_reads) fr s = Inr s1"
      and "?P s" and "family_reads_ok fr" for fid fr s s1
  proof -
    from that(3) have a: "\<forall>x \<in> set fr. strand_reads_ok (snd x)"
      by (simp add: family_reads_ok_def list_all_iff)
    from that(1,2) show ?thesis
    proof (rule fold_err_invariant[where P = ?P])
      fix x s s2
      assume xin: "x \<in> set fr" and ps: "?P s"
        and run: "(case x of (strand, strand_reads) \<Rightarrow>
                    merge_read_pair rs fid strand strand_reads) s = Inr s2"
      obtain strand sr where x: "x = (strand, sr)" by (cases x)
      from a xin have "strand_reads_ok (snd x)" by (rule bspec)
      then have ok: "strand_reads_ok sr" unfolding x by simp
      from run have "merge_read_pair rs fid strand sr s = Inr s2" unfolding x by simp
      from this ok ps show "?P s2" by (rule merge_read_pair_log)
    qed
  qed
  have "?P (ssc, log)"
    using m[unfolded merge_fwd_rev_per_strand_def]
  proof (rule fold_err_invariant[where P = ?P])
    show "?P ([], [])" by simp
  next
    fix x s s1
    assume xin: "x \<in> set ri" and ps: "?P s"
      and run: "(case x of (family_id, family_reads) \<Rightarrow>
              fold_err (\<lambda>(strand, strand_reads). merge_read_pair rs family_id strand strand_reads)
                family_reads) s = Inr s1"
    obtain fid fr where x: "x = (fid, fr)" by (cases x)
    from ri xin have "family_reads_ok (snd x)" by (rule bspec)
    then have ok: "family_reads_ok fr" unfolding x by simp
    from run have "fold_err (\<lambda>(strand, strand_reads). merge_read_pair rs fid strand strand_reads)
                fr s = Inr s1" unfolding x by simp
    from this ps ok show "?P s1" by (rule inner)
  qed
  then show ?thesis by simp
qed

section \<open>Strands that start at the same position\<close>

text \<open>
  When both strands start where the duplex starts, the bases that the loop pairs with a
  reference position are the bases of the two strand consensuses at that position.
\<close>

lemma merged_strand_fields:
  assumes "merged_strand sc"
  obtains s e c where "ssc_start sc = Some s" and "ssc_end sc = Some e" and "ssc_cons sc = Some c"
    and "s < e" and "length c = nat (e - s + 1)"
  using assms unfolding merged_strand_def by (auto split: option.splits)

lemma strand_base_at:
  assumes "ssc_start sc = Some s" and "ssc_end sc = Some e" and "ssc_cons sc = Some c"
    and "length c = nat (e - s + 1)" and "s \<le> q" and "q \<le> e"
  shows "strand_base sc q = Some (upper (c ! nat (q - s)))"
proof -
  from assms(4,5,6) have "nat (q - s) < length c" by simp
  with assms show ?thesis by (simp add: strand_base_def)
qed

lemma zip_upto_nth:
  assumes "x \<in> set (zip [s..e] (zip pc nc))"
  obtains i where "i < length pc" and "i < length nc" and "s + int i \<le> e"
    and "x = (s + int i, pc ! i, nc ! i)"
proof -
  from assms obtain i where i: "i < length (zip [s..e] (zip pc nc))"
    and x: "zip [s..e] (zip pc nc) ! i = x"
    by (auto simp: in_set_conv_nth)
  from i have l: "i < length [s..e]" "i < length pc" "i < length nc" by simp_all
  from l(1) have le: "s + int i \<le> e" by simp
  from x l le have "x = (s + int i, pc ! i, nc ! i)" by simp
  with l(2,3) le show ?thesis by (rule that)
qed

lemma family_entry_same_start:
  assumes m: "merge_strands rs fs bp = Inr (d, bp')"
    and mp: "merged_strand (fs_pos fs)" and mn: "merged_strand (fs_neg fs)"
    and same: "ssc_start (fs_pos fs) = ssc_start (fs_neg fs)"
    and q: "map_of (ds_variants d) q \<noteq> None \<or> map_of (ds_adducts d) q \<noteq> None"
  shows "\<exists>P N. strand_base (fs_pos fs) q = Some P \<and> strand_base (fs_neg fs) q = Some N
       \<and> map_of (ds_variants d) q = fst (position_calls rs (ds_ref_name d) (q, P, N))
       \<and> map_of (ds_adducts d) q = snd (position_calls rs (ds_ref_name d) (q, P, N))"
proof -
  from mp obtain ps pe pcons where ps: "ssc_start (fs_pos fs) = Some ps"
    and pe: "ssc_end (fs_pos fs) = Some pe" and pcs: "ssc_cons (fs_pos fs) = Some pcons"
    and pl: "ps < pe" "length pcons = nat (pe - ps + 1)"
    by (rule merged_strand_fields)
  from mn obtain ns ne ncons where ns: "ssc_start (fs_neg fs) = Some ns"
    and ne: "ssc_end (fs_neg fs) = Some ne" and ncs: "ssc_cons (fs_neg fs) = Some ncons"
    and nl: "ns < ne" "length ncons = nat (ne - ns + 1)"
    by (rule merged_strand_fields)
  from same ps ns have eq: "ps = ns" by simp
  note fsp = family_span[OF m mp mn ps ns pe ne pcs ncs]
  let ?n = "nat (ds_end d - ds_start d + 1)"
  let ?pc = "map upper (take ?n pcons)"
  let ?nc = "map upper (take ?n ncons)"
  have s: "ds_start d = ps" using fsp(1) eq by simp
  have e: "ds_end d \<le> pe" "ds_end d \<le> ne" using fsp(2) by simp_all
  have tp: "trim_cons (ds_start d) (ds_end d) (fs_pos fs) = Inr ?pc" using fsp(6)[OF eq] .
  have tn: "trim_cons (ds_start d) (ds_end d) (fs_neg fs) = Inr ?nc" using fsp(7)[OF eq] .
  let ?xs = "zip [ds_start d..ds_end d] (zip ?pc ?nc)"
  have "q \<in> fst ` set ?xs"
  proof (rule ccontr)
    assume "q \<notin> fst ` set ?xs"
    from family_frame[OF m tp tn this] q show False by simp
  qed
  then obtain x where x: "x \<in> set ?xs" and fx: "fst x = q" by (rule imageE) simp
  from x obtain i where ip: "i < length ?pc" and "i < length ?nc"
    and le: "ds_start d + int i \<le> ds_end d"
    and xe: "x = (ds_start d + int i, ?pc ! i, ?nc ! i)"
    by (rule zip_upto_nth)
  then have i: "i < ?n" "i < length pcons" "i < length ncons" by simp_all
  from fx xe have qi: "q = ds_start d + int i" by simp
  then have idx: "nat (q - ps) = i" "nat (q - ns) = i" using s eq by simp_all
  have range: "ps \<le> q" "q \<le> pe" "ns \<le> q" "q \<le> ne" using qi s eq le e by simp_all
  have P: "strand_base (fs_pos fs) q = Some (upper (pcons ! i))"
    using strand_base_at[OF ps pe pcs pl(2) range(1,2)] idx by simp
  have N: "strand_base (fs_neg fs) q = Some (upper (ncons ! i))"
    using strand_base_at[OF ns ne ncs nl(2) range(3,4)] idx by simp
  have "x = (q, upper (pcons ! i), upper (ncons ! i))"
    using xe qi i by simp
  with family_calls[OF m x tp tn] P N show ?thesis by auto
qed

section \<open>Runs of the examples\<close>

lemma ex5_run: "ParseSSC ex5_pos ex5_neg = Inr ex5_state"
  by code_simp

lemma ex5_trim:
  "trim_cons 100 104 (fs_pos ex5_fs) = Inr ''ATGTN''"
  "trim_cons 100 104 (fs_neg ex5_fs) = Inr ''AGGTN''"
  by code_simp+

lemma ex5_family:
  "map_of (p_dsc_info ex5_state) ''F1'' = Some ex5_dsc"
  "map_of (p_ssc_info ex5_state) ''F1'' = Some ex5_fs"
  by (simp_all add: ex5_state_def)

lemma ex5_span:
  "ds_start ex5_dsc = 100" "ds_end ex5_dsc = 104" "ds_ref_name ex5_dsc = Some ''chr1''"
  by (simp_all add: ex5_dsc_def)

lemma ex5_ref:
  "refseq_at (p_refseq ex5_state) (Some ''chr1'') 101 = Inr (CHR ''C'')"
  by (simp add: ex5_state_def ex_refseq_def refseq_at_def refseq_contig_def)

lemma ex7_run:
  "merge_read_pair ex_refseq ''F1'' Pos [(Fwd, Some ex7_fwd), (Rev, Some ex7_rev)] ([], [])
     = Inr (ex7_ssc, [])"
  by code_simp

section \<open>Claims\<close>

text \<open>
  C1.  The code does not do what the claim says when the strands of a family start apart.
  The lower bound of the trimming slice is the strand start minus the duplex start, which
  is negative for the strand that starts first, so the slice keeps the end of that strand
  and the loop pairs its bases with the wrong reference positions.  In the first run all
  reads match the reference: at position 102 both strands and the reference cache hold
  \<open>G\<close>, and a positive-strand adduct \<open>(C, G)\<close> is recorded.  In the second run both
  strands read \<open>T\<close> at position 104, where the cache holds \<open>A\<close>, and nothing is recorded
  there.
\<close>

theorem classification_misaligned:
  "bases_at (ParseSSC ex_shift_pos ex_shift_neg) ''F1'' 102
     = Some (Some (CHR ''G''), Some (CHR ''G''), Inr (CHR ''G''))
   \<and> calls_at (ParseSSC ex_shift_pos ex_shift_neg) ''F1'' 102
     = Some (None, Some \<lparr>a_strand = Pos, a_var = CHR ''C'', a_ref = CHR ''G''\<rparr>)
   \<and> bases_at (ParseSSC ex_miss_pos ex_miss_neg) ''F1'' 104
     = Some (Some (CHR ''T''), Some (CHR ''T''), Inr (CHR ''A''))
   \<and> calls_at (ParseSSC ex_miss_pos ex_miss_neg) ''F1'' 104 = Some (None, None)"
  by code_simp

text \<open>
  C2.  For a family of the final duplex map, \<open>total_variants\<close> is the number of entries
  of the variants map, and \<open>total_variants_and_adducts\<close> is that number plus the number of
  positions where exactly one strand mismatches the reference (cases 6 and 7).  A position
  where both strands mismatch with different bases (case 5) adds an entry to both maps and
  counts once: the adducts map has one entry for every position of cases 5, 6 and 7.
\<close>

theorem total_counters:
  assumes "ParseSSC pos_bam neg_bam = Inr p"
    and "map_of (p_dsc_info p) family_id = Some d"
    and "map_of (p_ssc_info p) family_id = Some fs"
    and "trim_cons (ds_start d) (ds_end d) (fs_pos fs) = Inr pos_cons"
    and "trim_cons (ds_start d) (ds_end d) (fs_neg fs) = Inr neg_cons"
    and "xs = zip [ds_start d..ds_end d] (zip pos_cons neg_cons)"
  shows "ds_total_variants d = length (ds_variants d)
       \<and> ds_total_variants_and_adducts d
           = length (ds_variants d)
             + (count_case (p_refseq p) (ds_ref_name d) xs 6
                + count_case (p_refseq p) (ds_ref_name d) xs 7)
       \<and> length (ds_adducts d)
           = count_case (p_refseq p) (ds_ref_name d) xs 5
             + (count_case (p_refseq p) (ds_ref_name d) xs 6
                + count_case (p_refseq p) (ds_ref_name d) xs 7)"
proof -
  from assms(1,2) obtain fs' bp bp' where look: "map_of (p_ssc_info p) family_id = Some fs'"
    and m: "merge_strands (p_refseq p) fs' bp = Inr (d, bp')"
    by (rule pipeline_family)
  from look assms(3) have "fs' = fs" by simp
  with m have m': "merge_strands (p_refseq p) fs bp = Inr (d, bp')" by simp
  from family_counters[OF m' assms(4,5)] show ?thesis
    unfolding assms(6) by simp
qed

theorem total_counters_witness:
  "ParseSSC ex5_pos ex5_neg = Inr ex5_state
   \<and> ds_total_variants ex5_dsc = 1 \<and> length (ds_variants ex5_dsc) = 1
   \<and> ds_total_variants_and_adducts ex5_dsc = 1 \<and> length (ds_adducts ex5_dsc) = 1
   \<and> count_case ex_refseq (Some ''chr1'') (zip [100..104] (zip ''ATGTN'' ''AGGTN'')) 5 = 1
   \<and> count_case ex_refseq (Some ''chr1'') (zip [100..104] (zip ''ATGTN'' ''AGGTN'')) 6
       + count_case ex_refseq (Some ''chr1'') (zip [100..104] (zip ''ATGTN'' ''AGGTN'')) 7 = 0"
proof -
  have c5: "count_case ex_refseq (Some ''chr1'') (zip [100..104] (zip ''ATGTN'' ''AGGTN'')) 5 = 1"
    by code_simp
  have l: "length (ds_variants ex5_dsc) = 1" by (simp add: ex5_dsc_def)
  have rs: "p_refseq ex5_state = ex_refseq" by (simp add: ex5_state_def)
  from total_counters[OF ex5_run ex5_family, of "''ATGTN''" "''AGGTN''" "zip [100..104] (zip ''ATGTN'' ''AGGTN'')"]
  have "ds_total_variants ex5_dsc = length (ds_variants ex5_dsc)
       \<and> ds_total_variants_and_adducts ex5_dsc
           = length (ds_variants ex5_dsc)
             + (count_case ex_refseq (Some ''chr1'') (zip [100..104] (zip ''ATGTN'' ''AGGTN'')) 6
                + count_case ex_refseq (Some ''chr1'') (zip [100..104] (zip ''ATGTN'' ''AGGTN'')) 7)
       \<and> length (ds_adducts ex5_dsc)
           = count_case ex_refseq (Some ''chr1'') (zip [100..104] (zip ''ATGTN'' ''AGGTN'')) 5
             + (count_case ex_refseq (Some ''chr1'') (zip [100..104] (zip ''ATGTN'' ''AGGTN'')) 6
                + count_case ex_refseq (Some ''chr1'') (zip [100..104] (zip ''ATGTN'' ''AGGTN'')) 7)"
    by (simp add: ex5_span ex5_trim rs)
  moreover have "ds_total_variants_and_adducts ex5_dsc = 1" "length (ds_adducts ex5_dsc) = 1"
    by (simp_all add: ex5_dsc_def)
  ultimately show ?thesis using ex5_run l c5 by simp
qed

text \<open>
  C3, as stated, fails.  When the strands of a family do not overlap the duplex has
  \<open>start = 200\<close> above \<open>end = 104\<close> and an empty consensus.  When the strands start two
  positions apart the duplex spans 102 to 106 and its consensus has two characters.
\<close>

theorem duplex_span_counterexample:
  "dsc_span (ParseSSC ex_apart_pos ex_apart_neg) ''F1'' = Some (200, 104, [])
   \<and> dsc_span (ParseSSC ex_shift_pos ex_shift_neg) ''F1'' = Some (102, 106, ''SN'')"
  by code_simp

text \<open>
  C3, amended.  For a family of the final duplex map, \<open>start\<close> is the larger of the two
  strand starts and \<open>end\<close> the smaller of the two strand ends; when \<open>end < start\<close> the
  consensus is empty.  When both strands start at the same position, \<open>start \<le> end\<close>, the
  consensus has length \<open>end - start + 1\<close>, and each strand consensus is trimmed to exactly
  the interval from \<open>start\<close> to \<open>end\<close>: its first \<open>end - start + 1\<close> characters, in upper
  case.
\<close>

theorem duplex_span:
  assumes "ParseSSC pos_bam neg_bam = Inr p"
    and "map_of (p_dsc_info p) family_id = Some d"
    and "map_of (p_ssc_info p) family_id = Some fs"
    and "ssc_start (fs_pos fs) = Some ps" and "ssc_start (fs_neg fs) = Some ns"
    and "ssc_end (fs_pos fs) = Some pe" and "ssc_end (fs_neg fs) = Some ne"
    and "ssc_cons (fs_pos fs) = Some pcons" and "ssc_cons (fs_neg fs) = Some ncons"
  shows "ds_start d = max ps ns \<and> ds_end d = min pe ne
       \<and> (ds_end d < ds_start d \<longrightarrow> ds_cons d = [])
       \<and> (ps = ns \<longrightarrow>
            ds_start d \<le> ds_end d
            \<and> length (ds_cons d) = nat (ds_end d - ds_start d + 1)
            \<and> trim_cons (ds_start d) (ds_end d) (fs_pos fs)
                = Inr (map upper (take (nat (ds_end d - ds_start d + 1)) pcons))
            \<and> trim_cons (ds_start d) (ds_end d) (fs_neg fs)
                = Inr (map upper (take (nat (ds_end d - ds_start d + 1)) ncons)))"
proof -
  from assms(1,2) obtain fs' bp bp' where look: "map_of (p_ssc_info p) family_id = Some fs'"
    and m: "merge_strands (p_refseq p) fs' bp = Inr (d, bp')"
    and mp: "merged_strand (fs_pos fs')" and mn: "merged_strand (fs_neg fs')"
    by (rule pipeline_family)
  from look assms(3) have e: "fs' = fs" by simp
  note fsp = family_span[OF m[unfolded e] mp[unfolded e] mn[unfolded e] assms(4-9)]
  from fsp(1,2) have "ds_start d = max ps ns \<and> ds_end d = min pe ne" by simp
  moreover from fsp(3) have "ds_end d < ds_start d \<longrightarrow> ds_cons d = []" by simp
  moreover have "ps = ns \<longrightarrow> ds_start d \<le> ds_end d"
  proof
    assume "ps = ns"
    from fsp(4)[OF this] show "ds_start d \<le> ds_end d" by simp
  qed
  moreover have "ps = ns \<longrightarrow> length (ds_cons d) = nat (ds_end d - ds_start d + 1)"
    using fsp(5) by blast
  moreover have "ps = ns \<longrightarrow> trim_cons (ds_start d) (ds_end d) (fs_pos fs)
                = Inr (map upper (take (nat (ds_end d - ds_start d + 1)) pcons))"
    using fsp(6) by blast
  moreover have "ps = ns \<longrightarrow> trim_cons (ds_start d) (ds_end d) (fs_neg fs)
                = Inr (map upper (take (nat (ds_end d - ds_start d + 1)) ncons))"
    using fsp(7) by blast
  ultimately show ?thesis by blast
qed

theorem duplex_span_witness:
  "ParseSSC ex5_pos ex5_neg = Inr ex5_state
   \<and> ssc_start (fs_pos ex5_fs) = Some 100 \<and> ssc_start (fs_neg ex5_fs) = Some 100
   \<and> ds_start ex5_dsc = 100 \<and> ds_end ex5_dsc = 104 \<and> length (ds_cons ex5_dsc) = 5
   \<and> trim_cons 100 104 (fs_pos ex5_fs) = Inr ''ATGTN''
   \<and> trim_cons 100 104 (fs_neg ex5_fs) = Inr ''AGGTN''"
proof -
  have s: "ssc_start (fs_pos ex5_fs) = Some 100" "ssc_start (fs_neg ex5_fs) = Some 100"
    "ssc_end (fs_pos ex5_fs) = Some 104" "ssc_end (fs_neg ex5_fs) = Some 104"
    "ssc_cons (fs_pos ex5_fs) = Some ''ATGTN''" "ssc_cons (fs_neg ex5_fs) = Some ''AGGTN''"
    by (simp_all add: ex5_fs_def ex_strand_def)
  from duplex_span[OF ex5_run ex5_family s]
  have "length (ds_cons ex5_dsc) = nat (ds_end ex5_dsc - ds_start ex5_dsc + 1)"
    by blast
  then show ?thesis using ex5_run s(1,2) by (simp add: ex5_span ex5_trim)
qed

text \<open>
  C4.  The code does not do what the claim says.  With the reverse read of the negative
  strand of family \<open>F1\<close> missing, the strand is dropped with a log entry (that of the
  contig test) and the other strand merges; \<open>merge_strands\<close> then compares a start with
  \<open>None\<close> and the run ends with a type error, also for the complete family \<open>F2\<close>.  With
  the forward read missing, the run ends with a key error in \<open>merge_read_pair\<close>: the test
  for a missing read never holds, since both orientations are keys of every entry of
  \<open>read_info\<close>.
\<close>

theorem missing_read_aborts:
  "map_sum id snd (merged_strands ex_two_pos ex_no_rev_neg)
     = Inr [Different_references ''F1'' Neg, Dump [(Fwd, ex_read []), (Rev, None)]]
   \<and> ParseSSC ex_two_pos ex_no_rev_neg = Inl TypeError
   \<and> ParseSSC ex_two_pos ex_no_fwd_neg = Inl (KeyError_read ''ref_name'')"
  by code_simp

text \<open>
  C5, as stated, fails: in the dual-mismatch example position 101 is in the variants map
  and in the adducts map of the family.
\<close>

theorem shared_position_counterexample:
  "ParseSSC ex5_pos ex5_neg = Inr ex5_state
   \<and> map_of (p_dsc_info ex5_state) ''F1'' = Some ex5_dsc
   \<and> fst ` set (ds_variants ex5_dsc) \<inter> fst ` set (ds_adducts ex5_dsc) = {101}"
  using ex5_run ex5_family by (simp add: ex5_dsc_def)

text \<open>
  C5, amended.  For a family of the final duplex map whose two strand consensuses start at
  the same reference position, the variants map and the adducts map share a reference
  position only where both strands mismatch the reference with different bases (case 5):
  with \<open>P\<close> and \<open>N\<close> the bases of the positive and of the negative strand consensus at
  that position and \<open>R\<close> the cached reference base of the family's contig there, the
  three are among A, T, C, G, \<open>P\<close> and \<open>N\<close> differ from \<open>R\<close> and from each other, the
  variant is \<open>(P, R)\<close> and the adduct is the negative-strand adduct
  \<open>(complement N, complement R)\<close>.
\<close>

theorem shared_position:
  assumes "ParseSSC pos_bam neg_bam = Inr p"
    and "map_of (p_dsc_info p) family_id = Some d"
    and "map_of (p_ssc_info p) family_id = Some fs"
    and "ssc_start (fs_pos fs) = ssc_start (fs_neg fs)"
    and "map_of (ds_variants d) q = Some v"
    and "map_of (ds_adducts d) q = Some a"
  shows "\<exists>P N R. strand_base (fs_pos fs) q = Some P \<and> strand_base (fs_neg fs) q = Some N
           \<and> refseq_at (p_refseq p) (ds_ref_name d) q = Inr R
           \<and> P \<in> allowed_nucs \<and> N \<in> allowed_nucs \<and> R \<in> allowed_nucs
           \<and> P \<noteq> R \<and> N \<noteq> R \<and> P \<noteq> N
           \<and> v = \<lparr>v_var = P, v_ref = R\<rparr>
           \<and> a = \<lparr>a_strand = Neg, a_var = spec_complement N, a_ref = spec_complement R\<rparr>"
proof -
  from assms(1,2) obtain fs' bp bp' where look: "map_of (p_ssc_info p) family_id = Some fs'"
    and m: "merge_strands (p_refseq p) fs' bp = Inr (d, bp')"
    and mp: "merged_strand (fs_pos fs')" and mn: "merged_strand (fs_neg fs')"
    by (rule pipeline_family)
  from look assms(3) have e: "fs' = fs" by simp
  from family_entry_same_start[OF m[unfolded e] mp[unfolded e] mn[unfolded e] assms(4), of q]
    assms(5,6)
  obtain P N where P: "strand_base (fs_pos fs) q = Some P"
    and N: "strand_base (fs_neg fs) q = Some N"
    and fv: "fst (position_calls (p_refseq p) (ds_ref_name d) (q, P, N)) = Some v"
    and sa: "snd (position_calls (p_refseq p) (ds_ref_name d) (q, P, N)) = Some a"
    by auto
  from calls_variant[OF fv] sa
  have "refseq_at (p_refseq p) (ds_ref_name d) q = Inr (v_ref v)
      \<and> P \<in> allowed_nucs \<and> N \<in> allowed_nucs \<and> v_ref v \<in> allowed_nucs
      \<and> P \<noteq> v_ref v \<and> N \<noteq> v_ref v \<and> P \<noteq> N
      \<and> v = \<lparr>v_var = P, v_ref = v_ref v\<rparr>
      \<and> a = \<lparr>a_strand = Neg, a_var = spec_complement N, a_ref = spec_complement (v_ref v)\<rparr>"
    by (auto split: if_splits)
  with P N show ?thesis by blast
qed

theorem shared_position_witness:
  "ssc_start (fs_pos ex5_fs) = ssc_start (fs_neg ex5_fs)
   \<and> map_of (ds_variants ex5_dsc) 101 = Some \<lparr>v_var = CHR ''T'', v_ref = CHR ''C''\<rparr>
   \<and> map_of (ds_adducts ex5_dsc) 101
       = Some \<lparr>a_strand = Neg, a_var = CHR ''C'', a_ref = CHR ''G''\<rparr>
   \<and> strand_base (fs_pos ex5_fs) 101 = Some (CHR ''T'')
   \<and> strand_base (fs_neg ex5_fs) 101 = Some (CHR ''G'')
   \<and> refseq_at (p_refseq ex5_state) (ds_ref_name ex5_dsc) 101 = Inr (CHR ''C'')
   \<and> (\<exists>P N R. strand_base (fs_pos ex5_fs) 101 = Some P \<and> strand_base (fs_neg ex5_fs) 101 = Some N
         \<and> refseq_at (p_refseq ex5_state) (ds_ref_name ex5_dsc) 101 = Inr R
         \<and> P \<noteq> R \<and> N \<noteq> R \<and> P \<noteq> N)"
proof -
  have v: "map_of (ds_variants ex5_dsc) 101 = Some \<lparr>v_var = CHR ''T'', v_ref = CHR ''C''\<rparr>"
    and a: "map_of (ds_adducts ex5_dsc) 101
              = Some \<lparr>a_strand = Neg, a_var = CHR ''C'', a_ref = CHR ''G''\<rparr>"
    by (simp_all add: ex5_dsc_def)
  have same: "ssc_start (fs_pos ex5_fs) = ssc_start (fs_neg ex5_fs)"
    by (simp add: ex5_fs_def ex_strand_def)
  have b: "strand_base (fs_pos ex5_fs) 101 = Some (CHR ''T'')"
    "strand_base (fs_neg ex5_fs) 101 = Some (CHR ''G'')"
    by code_simp+
  have r: "refseq_at (p_refseq ex5_state) (ds_ref_name ex5_dsc) 101 = Inr (CHR ''C'')"
    using ex5_ref by (simp add: ex5_span)
  from shared_position[OF ex5_run ex5_family same v a]
  have "\<exists>P N R. strand_base (fs_pos ex5_fs) 101 = Some P \<and> strand_base (fs_neg ex5_fs) 101 = Some N
         \<and> refseq_at (p_refseq ex5_state) (ds_ref_name ex5_dsc) 101 = Inr R
         \<and> P \<noteq> R \<and> N \<noteq> R \<and> P \<noteq> N"
    by blast
  with same v a b r show ?thesis by blast
qed

text \<open>
  C6, as stated, fails: in the dual-mismatch example the adduct recorded at position 101
  has \<open>ref = G\<close>, and the cached reference base at that position is \<open>C\<close>.
\<close>

theorem recorded_ref_counterexample:
  "ParseSSC ex5_pos ex5_neg = Inr ex5_state
   \<and> map_of (p_dsc_info ex5_state) ''F1'' = Some ex5_dsc
   \<and> map_option a_ref (map_of (ds_adducts ex5_dsc) 101) = Some (CHR ''G'')
   \<and> refseq_at (p_refseq ex5_state) (ds_ref_name ex5_dsc) 101 = Inr (CHR ''C'')"
  using ex5_run ex5_family ex5_ref by (simp add: ex5_dsc_def)

text \<open>
  C6, amended.  For a family of the final duplex map and a position recorded in its
  variants map or as a positive-strand adduct, the stored \<open>ref\<close> is the cached reference
  base of the family's contig at that position; for a negative-strand adduct the stored
  \<open>ref\<close> is the complement of that cached base.
\<close>

theorem recorded_ref:
  assumes "ParseSSC pos_bam neg_bam = Inr p"
    and "map_of (p_dsc_info p) family_id = Some d"
  shows "(\<forall>v. map_of (ds_variants d) q = Some v \<longrightarrow>
            refseq_at (p_refseq p) (ds_ref_name d) q = Inr (v_ref v))
       \<and> (\<forall>a. map_of (ds_adducts d) q = Some a \<longrightarrow>
            (\<exists>R. refseq_at (p_refseq p) (ds_ref_name d) q = Inr R \<and> R \<in> allowed_nucs
                \<and> a_ref a = (case a_strand a of Pos \<Rightarrow> R | Neg \<Rightarrow> spec_complement R)))"
proof (intro conjI allI impI)
  from assms obtain fs bp bp' where
    m: "merge_strands (p_refseq p) fs bp = Inr (d, bp')"
    by (rule pipeline_family)
  {
    fix v assume v: "map_of (ds_variants d) q = Some v"
    from family_entry[OF m, of q] v obtain P N where
      "fst (position_calls (p_refseq p) (ds_ref_name d) (q, P, N)) = Some v"
      by auto
    from calls_variant[OF this]
    show "refseq_at (p_refseq p) (ds_ref_name d) q = Inr (v_ref v)" by simp
  }
  {
    fix a assume a: "map_of (ds_adducts d) q = Some a"
    from family_entry[OF m, of q] a obtain P N where
      "snd (position_calls (p_refseq p) (ds_ref_name d) (q, P, N)) = Some a"
      by auto
    from calls_adduct[OF this]
    show "\<exists>R. refseq_at (p_refseq p) (ds_ref_name d) q = Inr R \<and> R \<in> allowed_nucs
                \<and> a_ref a = (case a_strand a of Pos \<Rightarrow> R | Neg \<Rightarrow> spec_complement R)"
      by auto
  }
qed

theorem recorded_ref_witness:
  "map_of (ds_variants ex5_dsc) 101 = Some \<lparr>v_var = CHR ''T'', v_ref = CHR ''C''\<rparr>
   \<and> map_of (ds_adducts ex5_dsc) 101
       = Some \<lparr>a_strand = Neg, a_var = CHR ''C'', a_ref = CHR ''G''\<rparr>
   \<and> refseq_at (p_refseq ex5_state) (ds_ref_name ex5_dsc) 101 = Inr (CHR ''C'')
   \<and> CHR ''G'' = spec_complement (CHR ''C'')"
proof -
  have v: "map_of (ds_variants ex5_dsc) 101 = Some \<lparr>v_var = CHR ''T'', v_ref = CHR ''C''\<rparr>"
    and a: "map_of (ds_adducts ex5_dsc) 101
              = Some \<lparr>a_strand = Neg, a_var = CHR ''C'', a_ref = CHR ''G''\<rparr>"
    by (simp_all add: ex5_dsc_def)
  from recorded_ref[OF ex5_run ex5_family(1), of 101] v a
  have "refseq_at (p_refseq ex5_state) (ds_ref_name ex5_dsc) 101 = Inr (CHR ''C'')
      \<and> CHR ''G'' = spec_complement (CHR ''C'')"
    by auto
  with v a show ?thesis by simp
qed

text \<open>
  C7.  When \<open>merge_read_pair\<close> merges the forward and the reverse read of a strand, the
  variants of the strand consensus are those of the two reads, the reverse read winning
  at a position that both have; the read position of an entry is
  \<open>(refpos - fwd.start) + 1\<close> when it comes from the forward read and
  \<open>(rev.end - refpos) + 1\<close> when it comes from the reverse read, and its \<open>ref\<close> is the cached
  reference base.
\<close>

theorem strand_variant_aggregation:
  assumes "merge_read_pair rs family_id strand [(Fwd, Some fwd_read), (Rev, Some rev_read)]
             (ssc, log) = Inr (ssc', log')"
    and "rd_ref_name fwd_read = rd_ref_name rev_read"
    and "rd_start fwd_read < rd_end rev_read"
    and "ssc_variants (get_strand (ssc_family ssc family_id) strand) = []"
    and "distinct (map fst (rd_variants fwd_read))"
    and "distinct (map fst (rd_variants rev_read))"
    and "variants = ssc_variants (get_strand (ssc_family ssc' family_id) strand)"
  shows "map_option (\<lambda>v. (sv_readpos v, sv_var v)) (map_of variants refpos)
           = (case map_of (rd_variants rev_read) refpos of
                Some b \<Rightarrow> Some ((rd_end rev_read - refpos) + 1, b)
              | None \<Rightarrow>
                  (case map_of (rd_variants fwd_read) refpos of
                     Some b \<Rightarrow> Some ((refpos - rd_start fwd_read) + 1, b)
                   | None \<Rightarrow> None))
       \<and> (\<forall>v. map_of variants refpos = Some v \<longrightarrow>
             refseq_at rs (Some (rd_ref_name fwd_read)) refpos = Inr (sv_ref v))"
proof -
  note look = merge_read_pair_variants[OF assms(1-6), of refpos, folded assms(7)]
  show ?thesis
  proof (cases "map_of (rd_variants rev_read) refpos")
    case (Some b)
    then have "map_of (rd_variants fwd_read) refpos = Some b \<or> map_of (rd_variants rev_read) refpos = Some b"
      by simp
    from merge_read_pair_refs[OF assms(1-3) this] obtain r where
      "refseq_at rs (Some (rd_ref_name fwd_read)) refpos = Inr r" by blast
    with look Some show ?thesis by simp
  next
    case None
    show ?thesis
    proof (cases "map_of (rd_variants fwd_read) refpos")
      case (Some b)
      then have "map_of (rd_variants fwd_read) refpos = Some b \<or> map_of (rd_variants rev_read) refpos = Some b"
        by simp
      from merge_read_pair_refs[OF assms(1-3) this] obtain r where
        "refseq_at rs (Some (rd_ref_name fwd_read)) refpos = Inr r" by blast
      with look None Some show ?thesis by simp
    next
      case fnone: None
      with look None show ?thesis by simp
    qed
  qed
qed

theorem strand_variant_aggregation_witness:
  "map_of (rd_variants ex7_fwd) 101 = Some (CHR ''T'')
   \<and> map_of (rd_variants ex7_rev) 101 = Some (CHR ''G'')
   \<and> map_option (\<lambda>v. (sv_readpos v, sv_var v))
         (map_of (ssc_variants (get_strand (ssc_family ex7_ssc ''F1'') Pos)) 101)
       = Some ((104 - 101) + 1, CHR ''G'')"
proof -
  have h: "rd_ref_name ex7_fwd = rd_ref_name ex7_rev" "rd_start ex7_fwd < rd_end ex7_rev"
    "ssc_variants (get_strand (ssc_family [] ''F1'') Pos) = []"
    "distinct (map fst (rd_variants ex7_fwd))" "distinct (map fst (rd_variants ex7_rev))"
    by (simp_all add: ex7_fwd_def ex7_rev_def ssc_family_def default_family_strands_def
          default_strand_consensus_def get_strand_def)
  have r: "map_of (rd_variants ex7_rev) 101 = Some (CHR ''G'')" "rd_end ex7_rev = 104"
    and f: "map_of (rd_variants ex7_fwd) 101 = Some (CHR ''T'')"
    by (simp_all add: ex7_rev_def ex7_fwd_def)
  from strand_variant_aggregation[OF ex7_run h refl, of 101]
  have "map_option (\<lambda>v. (sv_readpos v, sv_var v))
         (map_of (ssc_variants (get_strand (ssc_family ex7_ssc ''F1'') Pos)) 101)
       = Some ((104 - 101) + 1, CHR ''G'')"
    by (simp add: r)
  with r f show ?thesis by simp
qed

text \<open>
  C8.  The families kept for a threshold \<open>T\<close> are exactly those whose filter metric is at
  most \<open>T\<close>, no threshold keeps every family, and the filter is monotone: a threshold
  \<open>T1 \<le> T2\<close> keeps a subset of what \<open>T2\<close> keeps, which is a subset of all families.
\<close>

theorem keep_families_monotone:
  assumes "T1 \<le> T2"
  shows "keep_families fo dsc (Some T1)
           = {family_id. \<exists>d. (family_id, d) \<in> set dsc \<and> filter_metric fo d \<le> T1}
       \<and> keep_families fo dsc None = fst ` set dsc
       \<and> keep_families fo dsc (Some T1) \<subseteq> keep_families fo dsc (Some T2)
       \<and> keep_families fo dsc (Some T2) \<subseteq> keep_families fo dsc None"
proof -
  have "keep_families fo dsc (Some T1) \<subseteq> keep_families fo dsc (Some T2)"
    unfolding keep_families_Some using assms by force
  moreover have "keep_families fo dsc (Some T2) \<subseteq> keep_families fo dsc None"
    unfolding keep_families_Some keep_families_None by force
  ultimately show ?thesis
    by (simp add: keep_families_Some keep_families_None)
qed

theorem keep_families_monotone_witness:
  "(0::int) \<le> 3
   \<and> keep_families total_variants ex8_dsc (Some 0) = {''F1''}
   \<and> keep_families total_variants ex8_dsc (Some 3) = {''F1'', ''F2''}
   \<and> keep_families total_variants ex8_dsc (Some 0) \<subseteq> keep_families total_variants ex8_dsc (Some 3)"
proof -
  have le: "(0::int) \<le> 3" by simp
  have k0: "keep_families total_variants ex8_dsc (Some 0) = {''F1''}"
    by (simp add: keep_families_def ex8_dsc_def ex_family_def filter_metric_def)
  have k3: "keep_families total_variants ex8_dsc (Some 3) = {''F1'', ''F2''}"
    by (auto simp: keep_families_def ex8_dsc_def ex_family_def filter_metric_def)
  have "keep_families total_variants ex8_dsc (Some 0) \<subseteq> keep_families total_variants ex8_dsc (Some 3)"
    by (rule keep_families_monotone[OF le, of total_variants ex8_dsc,
          THEN conjunct2, THEN conjunct2, THEN conjunct1])
  with le k0 k3 show ?thesis by simp
qed

text \<open>
  C9.  Whatever families are kept, the overall \<open>adducts\<close> tally of \<open>format_summary\<close> is
  twice the number of entries of the adducts maps of the kept families, and the
  \<open>adducts\<close> tally of a contig is twice that number over the kept families of the contig:
  every family adds the size of its adducts map, and then one more for each entry.
\<close>

theorem summary_adducts_doubled:
  "count_of (total_counts (format_summary dsc keep)) ''adducts''
     = 2 * adduct_entries (kept keep dsc)
   \<and> count_of (counts_of (chr_counts (format_summary dsc keep)) contig) ''adducts''
     = 2 * adduct_entries (filter (\<lambda>d. ds_ref_name d = contig) (kept keep dsc))"
  using fold_count_family_adducts[of keep dsc empty_summary contig]
  by (simp add: format_summary_def empty_summary_adducts
        total_adducts_def[symmetric] chr_adducts_def[symmetric])

text \<open>
  C10.  \<open>complement\<close> fails on every character outside A, T, C, G, and \<open>merge_strands\<close>
  calls it only behind the three membership tests: whatever the strands and the reference
  cache hold, \<open>merge_strands\<close> never ends with the key error of \<open>complement\<close>.
\<close>

theorem complement_guarded:
  "complement b = (if b \<in> allowed_nucs then Inr (spec_complement b) else Inl (KeyError_complement b))
   \<and> merge_strands rs family_strands bp \<noteq> Inl (KeyError_complement b)"
proof
  show "complement b =
      (if b \<in> allowed_nucs then Inr (spec_complement b) else Inl (KeyError_complement b))"
    by (simp add: allowed_nucs_def complement_def spec_complement_def)
next
  show "merge_strands rs family_strands bp \<noteq> Inl (KeyError_complement b)"
  proof
    assume "merge_strands rs family_strands bp = Inl (KeyError_complement b)"
    from merge_strands_error[OF this] merge_position_no_complement_error
    show False by blast
  qed
qed

end
